theory Spec2Isabelle
  imports Complex_Main "HOL-Library.Multiset"
begin

section \<open>Multi-angle face matcher (FaceRecognitionServiceFAISS)\<close>

text \<open>
  The service object of \<^verbatim>\<open>services.py\<close>. The FAISS library is external: its
  \<^verbatim>\<open>normalize_L2\<close> and \<^verbatim>\<open>IndexFlatIP.search\<close> are parameters of the model; a search
  that raises is the value \<open>None\<close>. The index is represented by the array that was added
  to it. The dictionary \<^verbatim>\<open>face_map\<close> is an association list in insertion order, each
  entry an employee id with the name and the embeddings. The detection model and the
  wall-clock field \<^verbatim>\<open>last_reload\<close> play no part in matching and are left out.
\<close>

record 'e face_service =
  face_map :: "(string \<times> string \<times> 'e list) list"
  recognition_threshold :: real
  faiss_index :: "'e list option"
  emp_id_map :: "string list"
  embeddings_cache :: "'e list"

definition init_service :: "'e face_service" where
  "init_service =
     \<lparr> face_map = [], recognition_threshold = 0.40, faiss_index = None,
       emp_id_map = [], embeddings_cache = [] \<rparr>"

definition load_face_map ::
  "('e list \<Rightarrow> 'e list) \<Rightarrow> 'e face_service \<Rightarrow> (string \<times> string \<times> 'e list) list \<Rightarrow> 'e face_service" where
  "load_face_map normalize_L2 svc fm =
     (let cache = concat (map (\<lambda>(emp, name, embs). embs) fm);
          ids = concat (map (\<lambda>(emp, name, embs). map (\<lambda>emb. emp) embs) fm)
      in svc \<lparr> face_map := fm,
               faiss_index := (if cache \<noteq> [] then Some (normalize_L2 cache) else None),
               emp_id_map := ids,
               embeddings_cache := cache \<rparr>)"

text \<open>Python list indexing: a negative index counts from the end; \<open>None\<close> is IndexError.\<close>

definition py_index :: "'a list \<Rightarrow> int \<Rightarrow> 'a option" where
  "py_index xs i =
     (if 0 \<le> i \<and> i < int (length xs) then Some (xs ! nat i)
      else if i < 0 \<and> - int (length xs) \<le> i then Some (xs ! nat (int (length xs) + i))
      else None)"

text \<open>\<^verbatim>\<open>emp_scores[emp_id].append(sim)\<close> on a \<^verbatim>\<open>defaultdict(list)\<close>, keys in insertion order.\<close>

fun append_score :: "(string \<times> real list) list \<Rightarrow> string \<Rightarrow> real \<Rightarrow> (string \<times> real list) list" where
  "append_score [] e s = [(e, [s])]"
| "append_score ((k, v) # kvs) e s =
     (if k = e then (k, v @ [s]) # kvs else (k, v) # append_score kvs e s)"

fun group_scores ::
  "string list \<Rightarrow> (int \<times> real) list \<Rightarrow> (string \<times> real list) list \<Rightarrow> (string \<times> real list) list option" where
  "group_scores m [] acc = Some acc"
| "group_scores m ((idx, sim) # rest) acc =
     (case py_index m idx of
        None \<Rightarrow> None
      | Some e \<Rightarrow> group_scores m rest (append_score acc e sim))"

text \<open>
  The similarities are \<^verbatim>\<open>np.float32\<close> scalars, so the arithmetic of the loop body is
  floating point. A floating-point number is modelled by the real it denotes, and an
  operation by the exact result rounded to the nearest number of the format, ties to the
  even significand. \<open>fl p m n\<close> rounds to precision \<open>p\<close> with smallest spacing \<open>2^-m\<close>
  (the subnormal numbers) and \<open>n\<close> further spacings above it: the spacing at \<open>x\<close> is
  the first of these under which \<open>\<bar>x\<bar>\<close> has fewer than \<open>p + 1\<close> significant bits.
  There is no infinity: beyond the largest finite number, which no sum or product of
  similarities of normalised embeddings reaches, the last spacing is used.
\<close>

definition round_half_even :: "real \<Rightarrow> int" where
  "round_half_even y =
     (let f = \<lfloor>y\<rfloor>; r = y - of_int f in
      if r < 1 / 2 then f
      else if r > 1 / 2 then f + 1
      else if even f then f else f + 1)"

fun ulp_search :: "nat \<Rightarrow> real \<Rightarrow> real \<Rightarrow> real \<Rightarrow> real" where
  "ulp_search 0 B q a = q"
| "ulp_search (Suc n) B q a = (if a < B * q then q else ulp_search n B (2 * q) a)"

definition fl :: "nat \<Rightarrow> nat \<Rightarrow> nat \<Rightarrow> real \<Rightarrow> real" where
  "fl p m n x =
     (let q = ulp_search n (2 ^ p) (1 / 2 ^ m) \<bar>x\<bar>
      in of_int (round_half_even (x / q)) * q)"

definition float32 :: "real \<Rightarrow> real" where
  "float32 = fl 24 149 253"

definition float64 :: "real \<Rightarrow> real" where
  "float64 = fl 53 1074 2045"

text \<open>
  An operation of a \<^verbatim>\<open>np.float32\<close> scalar with a Python number (\<^verbatim>\<open>0.08\<close>, \<^verbatim>\<open>2\<close>, \<^verbatim>\<open>0.6\<close>)
  depends on the NumPy that is installed, which the repository does not fix. With
  \<open>weak\<close> the Python number takes the precision of the scalar and the operation is done
  in float32 (NumPy 2); without it both operands are promoted and the operation is done
  in float64 (NumPy 1). \<open>scalar_round\<close> is the rounding of the result of such an
  operation and \<open>scalar_operand\<close> the Python float as it enters it.
\<close>

definition scalar_round :: "bool \<Rightarrow> real \<Rightarrow> real" where
  "scalar_round weak x = (if weak then float32 x else float64 x)"

definition scalar_operand :: "bool \<Rightarrow> real \<Rightarrow> real" where
  "scalar_operand weak c = (if weak then float32 c else c)"

text \<open>The Python float literals \<^verbatim>\<open>0.08\<close> and \<^verbatim>\<open>0.6\<close> of the loop body: float64 numbers.\<close>

definition gap_limit :: real where
  "gap_limit = float64 0.08"

definition penalty :: real where
  "penalty = float64 0.6"

text \<open>The body of the loop over \<^verbatim>\<open>emp_scores.items()\<close>: the confidence of one employee.\<close>

definition confidence_of :: "bool \<Rightarrow> real list \<Rightarrow> real" where
  "confidence_of weak sims =
     (let sims_sorted = rev (sort sims) in
      if length sims_sorted \<ge> 2 then
        (let top_sim = sims_sorted ! 0; second_sim = sims_sorted ! 1 in
         if float32 (top_sim - second_sim) \<le> scalar_operand weak gap_limit
         then scalar_round weak (float32 (top_sim + second_sim) / 2)
         else scalar_round weak (top_sim * scalar_operand weak penalty))
      else (if sims_sorted \<noteq> [] then sims_sorted ! 0 else 0))"

fun best_loop ::
  "bool \<Rightarrow> (string \<times> real list) list \<Rightarrow> string option \<times> real \<Rightarrow> string option \<times> real" where
  "best_loop weak [] b = b"
| "best_loop weak ((e, sims) # rest) (best_match, best_confidence) =
     (let confidence = confidence_of weak sims in
      if confidence > best_confidence then best_loop weak rest (Some e, confidence)
      else best_loop weak rest (best_match, best_confidence))"

definition recognize_face ::
  "bool \<Rightarrow> ('e list \<Rightarrow> 'e list) \<Rightarrow> ('e list \<Rightarrow> 'e list \<Rightarrow> nat \<Rightarrow> (int \<times> real) list option) \<Rightarrow>
   'e face_service \<Rightarrow> 'e \<Rightarrow> string option \<times> real" where
  "recognize_face weak normalize_L2 search svc face_embedding =
     (case faiss_index svc of
        None \<Rightarrow> (None, 0)
      | Some ix \<Rightarrow>
          if length (emp_id_map svc) = 0 then (None, 0)
          else
            (let query_embedding = normalize_L2 [face_embedding];
                 k = min 20 (length (embeddings_cache svc))
             in case search ix query_embedding k of
                  None \<Rightarrow> (None, 0)
                | Some nbrs \<Rightarrow>
                    (case group_scores (emp_id_map svc) nbrs [] of
                       None \<Rightarrow> (None, 0)
                     | Some emp_scores \<Rightarrow>
                         (case best_loop weak emp_scores (None, 0) of
                            (best_match, best_confidence) \<Rightarrow>
                              if best_confidence \<ge> recognition_threshold svc
                              then (best_match, best_confidence)
                              else (None, best_confidence)))))"

text \<open>
  The similarities of the neighbours that belong to one employee, in neighbour order,
  and the employees that occur among the neighbours: the reading of the grouping that
  the grouped dictionary is compared with.
\<close>

definition matched_sims :: "string list \<Rightarrow> (int \<times> real) list \<Rightarrow> string \<Rightarrow> real list" where
  "matched_sims m nbrs e = map snd (filter (\<lambda>(i, s). py_index m i = Some e) nbrs)"

definition matched_ids :: "string list \<Rightarrow> (int \<times> real) list \<Rightarrow> string list" where
  "matched_ids m nbrs = remdups (List.map_filter (\<lambda>(i, s). py_index m i) nbrs)"

definition highest_confidence :: "bool \<Rightarrow> string list \<Rightarrow> (int \<times> real) list \<Rightarrow> real" where
  "highest_confidence weak m nbrs =
     Max (set (map (\<lambda>e. confidence_of weak (matched_sims m nbrs e)) (matched_ids m nbrs)))"

section \<open>Attendance ledger (PooledDatabaseService.log_attendance_update_only)\<close>

text \<open>
  A row of the table \<^verbatim>\<open>attendance_logs\<close>. The column \<^verbatim>\<open>id\<close> is \<open>log_id\<close>; a \<^verbatim>\<open>TIME\<close> value
  is the number of seconds since midnight and a \<^verbatim>\<open>DATE\<close> the number of days since the
  epoch; \<open>None\<close> is SQL NULL. The columns \<^verbatim>\<open>year_month\<close>, \<^verbatim>\<open>created_at\<close> and \<^verbatim>\<open>updated_at\<close>
  are never read by the ledger and are left out.
\<close>

record attendance_log =
  log_id :: nat
  emp_id :: string
  date :: int
  first_in :: "int option"
  last_out :: "int option"
  in_camera_id :: "string option"
  out_camera_id :: "string option"
  in_confidence :: "real option"
  out_confidence :: "real option"

text \<open>
  The store: the keys of the table \<^verbatim>\<open>employees\<close> (the target of the foreign key) and the
  rows of \<^verbatim>\<open>attendance_logs\<close> in insertion order.
\<close>

record database =
  employees :: "string list"
  attendance_logs :: "attendance_log list"

text \<open>
  A \<^verbatim>\<open>datetime\<close> with whole seconds: naive (wall-clock seconds since the epoch) or aware
  (wall-clock seconds and the offset from UTC in seconds). The source reads a naive value
  as UTC and converts to Asia/Kolkata, taken as the fixed offset +05:30.
\<close>

datatype datetime = Naive int | Aware int int

definition timestamp_ist :: "datetime \<Rightarrow> int" where
  "timestamp_ist timestamp =
     (case timestamp of
        Naive w \<Rightarrow> w + 19800
      | Aware w off \<Rightarrow> w - off + 19800)"

definition today :: "datetime \<Rightarrow> int" where
  "today timestamp = timestamp_ist timestamp div 86400"

definition time_only :: "datetime \<Rightarrow> int" where
  "time_only timestamp = timestamp_ist timestamp mod 86400"

text \<open>
  The statements the ledger issues. A statement that PostgreSQL rejects is \<open>Inl\<close>: a
  string longer than its \<^verbatim>\<open>VARCHAR\<close> column, an employee id that is not in \<^verbatim>\<open>employees\<close>, a
  second row for one employee and date. The text of \<open>pg_message\<close> stands for \<^verbatim>\<open>str(e)\<close>.
  Faults of the connection itself are outside the model. A new row takes an id above
  every id in the table, as the \<^verbatim>\<open>BIGSERIAL\<close> column does.
\<close>

datatype pg_error = StringDataRightTruncation | ForeignKeyViolation | UniqueViolation

fun pg_message :: "pg_error \<Rightarrow> string" where
  "pg_message StringDataRightTruncation = ''value too long for type character varying''"
| "pg_message ForeignKeyViolation = ''violates foreign key constraint''"
| "pg_message UniqueViolation = ''duplicate key value violates unique constraint''"

definition select_log :: "database \<Rightarrow> string \<Rightarrow> int \<Rightarrow> attendance_log option" where
  "select_log db e d = find (\<lambda>r. emp_id r = e \<and> date r = d) (attendance_logs db)"

definition next_id :: "attendance_log list \<Rightarrow> nat" where
  "next_id logs = Suc (fold max (map log_id logs) 0)"

definition insert_log ::
  "database \<Rightarrow> string \<Rightarrow> int \<Rightarrow> int \<Rightarrow> string \<Rightarrow> real \<Rightarrow> pg_error + database" where
  "insert_log db e d t cam conf =
     (if length e > 20 \<or> length cam > 50 then Inl StringDataRightTruncation
      else if e \<notin> set (employees db) then Inl ForeignKeyViolation
      else if find (\<lambda>r. emp_id r = e \<and> date r = d) (attendance_logs db) \<noteq> None
        then Inl UniqueViolation
      else Inr (db \<lparr> attendance_logs := attendance_logs db @
             [\<lparr> log_id = next_id (attendance_logs db), emp_id = e, date = d,
                first_in = Some t, last_out = None,
                in_camera_id = Some cam, out_camera_id = None,
                in_confidence = Some conf, out_confidence = None \<rparr>] \<rparr>))"

definition update_out ::
  "database \<Rightarrow> nat \<Rightarrow> int \<Rightarrow> string \<Rightarrow> real \<Rightarrow> pg_error + database" where
  "update_out db record_id t cam conf =
     (if length cam > 50 then Inl StringDataRightTruncation
      else Inr (db \<lparr> attendance_logs :=
             map (\<lambda>r. if log_id r = record_id
                       then r \<lparr> last_out := Some t, out_camera_id := Some cam,
                                out_confidence := Some conf \<rparr>
                       else r)
                 (attendance_logs db) \<rparr>))"

definition update_in ::
  "database \<Rightarrow> nat \<Rightarrow> int \<Rightarrow> string \<Rightarrow> real \<Rightarrow> pg_error + database" where
  "update_in db record_id t cam conf =
     (if length cam > 50 then Inl StringDataRightTruncation
      else Inr (db \<lparr> attendance_logs :=
             map (\<lambda>r. if log_id r = record_id
                       then r \<lparr> first_in := Some t, in_camera_id := Some cam,
                                in_confidence := Some conf \<rparr>
                       else r)
                 (attendance_logs db) \<rparr>))"

text \<open>The dictionary the ledger returns; \<open>action\<close> is \<open>None\<close> when the key is absent.\<close>

record log_result =
  success :: bool
  message :: string
  action :: "string option"

definition ok_result :: "string \<Rightarrow> string \<Rightarrow> log_result" where
  "ok_result msg act = \<lparr> success = True, message = msg, action = Some act \<rparr>"

definition failed_result :: "string \<Rightarrow> log_result" where
  "failed_result msg = \<lparr> success = False, message = msg, action = None \<rparr>"

text \<open>
  One call of the ledger. A rejected statement raises \<^verbatim>\<open>PostgresError\<close>; the connection
  manager rolls back and the handler returns the failure dictionary, so the store is the
  one before the call.
\<close>

definition log_attendance_update_only ::
  "database \<Rightarrow> string \<Rightarrow> string \<Rightarrow> string \<Rightarrow> real \<Rightarrow> datetime \<Rightarrow> log_result \<times> database" where
  "log_attendance_update_only db e event_type camera_id confidence timestamp =
     (if event_type = ''IN'' then
        (case select_log db e (today timestamp) of
           Some existing \<Rightarrow> (ok_result ''IN already logged'' ''skipped'', db)
         | None \<Rightarrow>
             (case insert_log db e (today timestamp) (time_only timestamp) camera_id confidence of
                Inl err \<Rightarrow> (failed_result (pg_message err), db)
              | Inr db' \<Rightarrow> (ok_result ''IN logged'' ''inserted'', db')))
      else if event_type = ''OUT'' then
        (case select_log db e (today timestamp) of
           Some existing \<Rightarrow>
             (if first_in existing \<noteq> None then
                (case update_out db (log_id existing) (time_only timestamp) camera_id confidence of
                   Inl err \<Rightarrow> (failed_result (pg_message err), db)
                 | Inr db' \<Rightarrow> (ok_result ''OUT updated'' ''updated'', db'))
              else
                (case update_in db (log_id existing) (time_only timestamp) camera_id confidence of
                   Inl err \<Rightarrow> (failed_result (pg_message err), db)
                 | Inr db' \<Rightarrow> (ok_result ''IN logged (EXIT camera used)'' ''updated'', db')))
         | None \<Rightarrow>
             (case insert_log db e (today timestamp) (time_only timestamp) camera_id confidence of
                Inl err \<Rightarrow> (failed_result (pg_message err), db)
              | Inr db' \<Rightarrow> (ok_result ''IN logged (EXIT camera used)'' ''inserted'', db')))
      else (failed_result ''Invalid event type'', db))"

text \<open>
  A sequence of calls for one employee, each an event type, a camera, a confidence and
  a timestamp, threaded through the store in call order.
\<close>

fun log_events ::
  "database \<Rightarrow> string \<Rightarrow> (string \<times> string \<times> real \<times> datetime) list \<Rightarrow> log_result list \<times> database" where
  "log_events db e [] = ([], db)"
| "log_events db e ((event_type, camera_id, confidence, timestamp) # calls) =
     (case log_attendance_update_only db e event_type camera_id confidence timestamp of
        (res, db') \<Rightarrow> (case log_events db' e calls of (ress, db'') \<Rightarrow> (res # ress, db'')))"

text \<open>The rows of one employee on one day.\<close>

definition rows_of :: "database \<Rightarrow> string \<Rightarrow> int \<Rightarrow> attendance_log list" where
  "rows_of db e d = filter (\<lambda>r. emp_id r = e \<and> date r = d) (attendance_logs db)"

text \<open>
  The invariant of the records of one employee and day while events arrive in time
  order: first-IN is set, is no later than the bound \<open>T\<close>, and is no later than last-OUT.
\<close>

definition ledger_inv :: "string \<Rightarrow> int \<Rightarrow> int \<Rightarrow> database \<Rightarrow> bool" where
  "ledger_inv e d T db =
     (\<forall>r \<in> set (rows_of db e d).
        \<exists>a. first_in r = Some a \<and> a \<le> T \<and> (\<forall>b. last_out r = Some b \<longrightarrow> a \<le> b))"

section \<open>Camera stream worker (CameraService.process_camera)\<close>

text \<open>
  The inner loop of the worker while monitoring stays on, over the frames the capture
  source delivers in order; \<open>None\<close> is a read that returns no frame. A frame is drained
  by \<^verbatim>\<open>cap.grab()\<close>, or read and processed (detection, matching, annotation, publishing),
  or the read fails and the loop is left for a reconnect. The result is the fate of each
  frame consumed and the frame counter, which the worker keeps across reconnects.
\<close>

datatype frame_fate = Processed | Drained | ReadFailed

definition FRAME_SKIP :: nat where
  "FRAME_SKIP = 3"

fun stream_loop :: "nat \<Rightarrow> 'f option list \<Rightarrow> frame_fate list \<times> nat" where
  "stream_loop frame_count [] = ([], frame_count)"
| "stream_loop frame_count (f # fs) =
     (if frame_count mod FRAME_SKIP \<noteq> 0 then
        (case stream_loop (frame_count + 1) fs of (fates, n) \<Rightarrow> (Drained # fates, n))
      else
        (case f of
           None \<Rightarrow> ([ReadFailed], frame_count)
         | Some frame \<Rightarrow>
             (case stream_loop (frame_count + 1) fs of (fates, n) \<Rightarrow> (Processed # fates, n))))"

section \<open>Broadcast hub (WebSocketManager.broadcast)\<close>

text \<open>
  The fields of the manager that a broadcast touches. A message is a dictionary from
  keys to strings. What \<^verbatim>\<open>connection.send_json(message)\<close> does is a parameter: the call
  itself raises (\<open>CallRaises\<close>), or it returns a coroutine that raises when it is awaited
  (\<open>SendFails\<close>), or one that delivers the message (\<open>Delivered\<close>). The \<^verbatim>\<open>try\<close> of the
  source encloses the call only; the coroutines are awaited afterwards by
  \<^verbatim>\<open>asyncio.gather(*tasks, return_exceptions=True)\<close>, which awaits every one and returns an
  exception as a result.
\<close>

datatype send_outcome = Delivered | SendFails | CallRaises

record 'ws ws_manager =
  active_connections :: "'ws list"
  connection_users :: "('ws \<times> string \<times> string \<times> string) list"
  last_frame :: "string \<Rightarrow> string option"
  frame_timestamps :: "string \<Rightarrow> real option"

definition cache_frame ::
  "real \<Rightarrow> 'ws ws_manager \<Rightarrow> (string \<Rightarrow> string option) \<Rightarrow> 'ws ws_manager" where
  "cache_frame now mgr msg =
     (case msg ''camera'' of
        None \<Rightarrow> mgr
      | Some cam \<Rightarrow>
          if cam \<in> set [''entry'', ''exit'']
          then mgr \<lparr> last_frame := (last_frame mgr)(cam := msg ''image''),
                     frame_timestamps := (frame_timestamps mgr)(cam := Some now) \<rparr>
          else mgr)"

text \<open>The loop that builds \<^verbatim>\<open>tasks\<close> and \<^verbatim>\<open>disconnected\<close>.\<close>

fun collect_sends :: "('ws \<Rightarrow> send_outcome) \<Rightarrow> 'ws list \<Rightarrow> 'ws list \<times> 'ws list" where
  "collect_sends send [] = ([], [])"
| "collect_sends send (connection # rest) =
     (case collect_sends send rest of
        (tasks, disconnected) \<Rightarrow>
          if send connection = CallRaises then (tasks, connection # disconnected)
          else (connection # tasks, disconnected))"

text \<open>The loop over \<^verbatim>\<open>disconnected\<close> that unregisters connections.\<close>

fun remove_disconnected :: "'ws ws_manager \<Rightarrow> 'ws list \<Rightarrow> 'ws ws_manager" where
  "remove_disconnected mgr [] = mgr"
| "remove_disconnected mgr (ws # rest) =
     remove_disconnected
       (if ws \<in> set (active_connections mgr)
        then mgr \<lparr> active_connections := remove1 ws (active_connections mgr),
                   connection_users := filter (\<lambda>(k, v). k \<noteq> ws) (connection_users mgr) \<rparr>
        else mgr)
       rest"

text \<open>A broadcast returns the manager and the connections the message was delivered to.\<close>

definition broadcast ::
  "real \<Rightarrow> ('ws \<Rightarrow> (string \<Rightarrow> string option) \<Rightarrow> send_outcome) \<Rightarrow> 'ws ws_manager \<Rightarrow>
   (string \<Rightarrow> string option) \<Rightarrow> 'ws ws_manager \<times> 'ws list" where
  "broadcast now send_json mgr msg =
     (if active_connections mgr = [] then (mgr, [])
      else
        (let mgr1 = (if msg ''type'' = Some ''frame'' then cache_frame now mgr msg else mgr)
         in case collect_sends (\<lambda>c. send_json c msg) (active_connections mgr1) of
              (tasks, disconnected) \<Rightarrow>
                (remove_disconnected mgr1 disconnected,
                 filter (\<lambda>c. send_json c msg = Delivered) tasks)))"

subsection \<open>Rounding to a floating-point format\<close>

lemma ulp_search_unfold:
  "ulp_search n B q a = (if n = 0 \<or> a < B * q then q else ulp_search (n - 1) B (2 * q) a)"
  by (cases n) auto

lemma round_half_even_le: "y \<le> of_int N \<Longrightarrow> round_half_even y \<le> N"
  unfolding round_half_even_def Let_def by (auto simp: floor_le_iff le_floor_iff)

lemma round_half_even_ge:
  assumes "of_int N \<le> y"
  shows "N \<le> round_half_even y"
proof -
  have "N \<le> \<lfloor>y\<rfloor>" using assms by (simp add: le_floor_iff)
  then show ?thesis unfolding round_half_even_def Let_def by auto
qed

lemma ulp_search_shape:
  "\<exists>i\<le>n. ulp_search n B q a = q * 2 ^ i \<and> (i = 0 \<or> B * (q * 2 ^ i) \<le> 2 * a)"
proof (induction n arbitrary: q)
  case 0
  then show ?case by simp
next
  case (Suc n)
  show ?case
  proof (cases "a < B * q")
    case True
    then show ?thesis by (intro exI[of _ 0]) simp
  next
    case False
    from Suc[of "2 * q"] obtain j where j: "j \<le> n"
      "ulp_search n B (2 * q) a = 2 * q * 2 ^ j" "j = 0 \<or> B * (2 * q * 2 ^ j) \<le> 2 * a" by blast
    have "B * (q * 2 ^ Suc j) \<le> 2 * a"
      using j(3) False by (cases "j = 0") (auto simp: algebra_simps)
    then show ?thesis using j False by (intro exI[of _ "Suc j"]) (simp add: algebra_simps)
  qed
qed

text \<open>Evaluating a rounding at a numeral.\<close>

lemmas float32_eval = float32_def fl_def round_half_even_def ulp_search_unfold Let_def

text \<open>Spacings that are too fine for \<open>a\<close> can be passed over in one step.\<close>

lemma ulp_search_skip:
  "j \<le> n \<Longrightarrow> 0 \<le> B * q \<Longrightarrow> j = 0 \<or> B * (q * 2 ^ j) \<le> 2 * a \<Longrightarrow>
   ulp_search n B q a = ulp_search (n - j) B (q * 2 ^ j) a"
proof (induction j arbitrary: n q)
  case 0
  then show ?case by simp
next
  case (Suc j)
  then obtain n' where n: "n = Suc n'" by (cases n) auto
  have big: "B * (q * 2 ^ Suc j) \<le> 2 * a" using Suc.prems(3) by simp
  have "B * q * 1 \<le> B * q * 2 ^ j" using Suc.prems(2) by (intro mult_left_mono) simp_all
  then have "B * q \<le> a" using big by (simp add: algebra_simps)
  then have step: "ulp_search n B q a = ulp_search n' B (2 * q) a" using n by simp
  have "ulp_search n' B (2 * q) a = ulp_search (n' - j) B (2 * q * 2 ^ j) a"
  proof (rule Suc.IH)
    show "j \<le> n'" using Suc.prems(1) n by simp
    show "0 \<le> B * (2 * q)" using Suc.prems(2) by simp
    show "j = 0 \<or> B * (2 * q * 2 ^ j) \<le> 2 * a" using big by (simp add: algebra_simps)
  qed
  then show ?case using step n by (simp add: algebra_simps)
qed

text \<open>Rounding does not cross a small integer, and keeps the sign.\<close>

lemma fl_le_int:
  assumes x: "x \<le> of_int c" and c: "0 \<le> c" and p: "2 * of_int c \<le> (2::real) ^ p"
  shows "fl p m n x \<le> of_int c"
proof -
  define q where "q = ulp_search n (2 ^ p) (1 / 2 ^ m) \<bar>x\<bar>"
  obtain i where qi: "q = 1 / 2 ^ m * 2 ^ i"
    and big: "i = 0 \<or> 2 ^ p * (1 / 2 ^ m * 2 ^ i) \<le> 2 * \<bar>x\<bar>"
    using ulp_search_shape[of n "2 ^ p" "1 / 2 ^ m" "\<bar>x\<bar>"] unfolding q_def by blast
  have qpos: "0 < q" using qi by simp
  have flq: "fl p m n x = of_int (round_half_even (x / q)) * q"
    by (simp add: fl_def q_def Let_def)
  show ?thesis
  proof (cases "x \<le> 0")
    case True
    then have "x / q \<le> of_int 0" using qpos by (simp add: divide_le_0_iff)
    then have "round_half_even (x / q) \<le> 0" by (rule round_half_even_le)
    then have "of_int (round_half_even (x / q)) * q \<le> 0"
      using qpos by (simp add: mult_le_0_iff)
    then show ?thesis using flq c by simp
  next
    case False
    then have xpos: "0 < x" by simp
    have im: "i \<le> m"
    proof (cases "i = 0")
      case True
      then show ?thesis by simp
    next
      case False
      then have "2 ^ p * q \<le> 2 * x" using big qi xpos by simp
      also have "\<dots> \<le> 2 * of_int c" using x by simp
      also have "\<dots> \<le> 2 ^ p" by (rule p)
      finally have "q \<le> 1" by simp
      then have "(2::real) ^ i \<le> 2 ^ m" using qi by (simp add: field_simps)
      then show ?thesis by simp
    qed
    define K where "K = c * 2 ^ (m - i)"
    have "(2::real) ^ m = 2 ^ (m - i) * 2 ^ i"
      using im by (simp add: power_add[symmetric])
    then have Kq: "of_int K * q = of_int c" by (simp add: K_def qi)
    then have "x / q \<le> of_int K" using x qpos by (simp add: pos_divide_le_eq)
    then have "round_half_even (x / q) \<le> K" by (rule round_half_even_le)
    then have "of_int (round_half_even (x / q)) * q \<le> of_int K * q"
      using qpos by (simp add: mult_right_mono)
    then show ?thesis using flq Kq by simp
  qed
qed

lemma fl_nonneg:
  assumes "0 \<le> x"
  shows "0 \<le> fl p m n x"
proof -
  define q where "q = ulp_search n (2 ^ p) (1 / 2 ^ m) \<bar>x\<bar>"
  obtain i where "q = 1 / 2 ^ m * 2 ^ i"
    using ulp_search_shape[of n "2 ^ p" "1 / 2 ^ m" "\<bar>x\<bar>"] unfolding q_def by blast
  then have qpos: "0 < q" by simp
  then have "of_int 0 \<le> x / q" using assms by simp
  then have "0 \<le> round_half_even (x / q)" by (rule round_half_even_ge)
  then have "0 \<le> of_int (round_half_even (x / q)) * q" using qpos by simp
  then show ?thesis by (simp add: fl_def q_def Let_def)
qed

lemma float32_le_two: "x \<le> 2 \<Longrightarrow> float32 x \<le> 2"
  unfolding float32_def using fl_le_int[of x 2 24 149 253] by simp

lemma scalar_round_le_one: "x \<le> 1 \<Longrightarrow> scalar_round weak x \<le> 1"
  unfolding scalar_round_def float32_def float64_def
  using fl_le_int[of x 1 24 149 253] fl_le_int[of x 1 53 1074 2045] by simp

lemma scalar_round_nonneg: "0 \<le> x \<Longrightarrow> 0 \<le> scalar_round weak x"
  unfolding scalar_round_def float32_def float64_def by (simp add: fl_nonneg)

lemma float64_skip:
  assumes "2 ^ 53 * (1 / 2 ^ 1074 * 2 ^ 1000) \<le> 2 * \<bar>x\<bar>"
  shows "float64 x =
     of_int (round_half_even (x / ulp_search 1045 (2 ^ 53) (1 / 2 ^ 74) \<bar>x\<bar>)) *
       ulp_search 1045 (2 ^ 53) (1 / 2 ^ 74) \<bar>x\<bar>"
proof -
  have "ulp_search 2045 (2 ^ 53) (1 / 2 ^ 1074) \<bar>x\<bar> =
        ulp_search (2045 - 1000) (2 ^ 53) (1 / 2 ^ 1074 * 2 ^ 1000) \<bar>x\<bar>"
    using assms by (intro ulp_search_skip) simp_all
  moreover have "(1 / 2 ^ 1074 * 2 ^ 1000 :: real) = 1 / 2 ^ 74" by simp
  ultimately show ?thesis by (simp add: float64_def fl_def Let_def)
qed

lemma gap_limit_eq: "gap_limit = 5764607523034235 / 2 ^ 56"
proof -
  have "2 ^ 53 * (1 / 2 ^ 1074 * 2 ^ 1000) \<le> 2 * \<bar>0.08 :: real\<bar>" by simp
  from float64_skip[OF this] show ?thesis
    by (simp add: gap_limit_def round_half_even_def ulp_search_unfold)
qed

lemma penalty_eq: "penalty = 5404319552844595 / 2 ^ 53"
proof -
  have "2 ^ 53 * (1 / 2 ^ 1074 * 2 ^ 1000) \<le> 2 * \<bar>0.6 :: real\<bar>" by simp
  from float64_skip[OF this] show ?thesis
    by (simp add: penalty_def round_half_even_def ulp_search_unfold)
qed

lemma penalty_range: "0 \<le> scalar_operand weak penalty \<and> scalar_operand weak penalty \<le> 1"
proof -
  have p0: "0 \<le> penalty" unfolding penalty_def float64_def by (intro fl_nonneg) simp
  have p1: "penalty \<le> 1"
    unfolding penalty_def float64_def using fl_le_int[of "0.6" 1 53 1074 2045] by simp
  have "0 \<le> float32 penalty" unfolding float32_def using p0 by (rule fl_nonneg)
  moreover have "float32 penalty \<le> 1"
    unfolding float32_def using fl_le_int[of penalty 1 24 149 253] p1 by simp
  ultimately show ?thesis using p0 p1 by (simp add: scalar_operand_def)
qed

subsection \<open>The two best similarities of a sorted list\<close>

lemma sorted_le_last:
  "sorted xs \<Longrightarrow> y \<in> set xs \<Longrightarrow> y \<le> last (xs::real list)"
  by (induction xs) auto

lemma sorted_last_Max:
  assumes "sorted xs" "xs \<noteq> []"
  shows "last xs = Max (set (xs::real list))"
proof -
  have "Max (set xs) = last xs"
  proof (rule Max_eqI)
    show "finite (set xs)" by simp
    show "\<And>y. y \<in> set xs \<Longrightarrow> y \<le> last xs" using assms(1) by (rule sorted_le_last)
    show "last xs \<in> set xs" using assms(2) by simp
  qed
  then show ?thesis by simp
qed

lemma sort_not_Nil: "xs \<noteq> [] \<Longrightarrow> sort (xs::real list) \<noteq> []"
  by (metis length_sort length_0_conv)

lemma last_sort_Max: "xs \<noteq> [] \<Longrightarrow> last (sort xs) = Max (set (xs::real list))"
  using sorted_last_Max[of "sort xs"] by (simp add: sort_not_Nil)

lemma top_is_Max:
  assumes "sims \<noteq> []"
  shows "rev (sort sims) ! 0 = Max (set (sims::real list))"
proof -
  have ne: "sort sims \<noteq> []" using assms by (metis length_sort length_0_conv)
  have "rev (sort sims) ! 0 = hd (rev (sort sims))"
    using ne by (simp add: hd_conv_nth)
  also have "\<dots> = last (sort sims)"
    using ne by (simp add: hd_rev)
  also have "\<dots> = Max (set (sort sims))"
    using ne by (simp add: sorted_last_Max)
  finally show ?thesis by simp
qed

lemma butlast_sort:
  assumes "sims \<noteq> []"
  shows "butlast (sort sims) = sort (remove1 (Max (set sims)) (sims::real list))"
proof -
  let ?ys = "sort sims"
  have ne: "?ys \<noteq> []" using assms by (metis length_sort length_0_conv)
  have lastM: "last ?ys = Max (set sims)"
    using ne sorted_last_Max[of ?ys] by simp
  have "mset (butlast ?ys) + {#last ?ys#} = mset ?ys"
    using ne by (metis append_butlast_last_id mset_append mset.simps(1) mset.simps(2) add_mset_add_single union_mset_add_mset_right)
  then have "mset (butlast ?ys) = mset sims - {#Max (set sims)#}"
    using lastM by (metis add_diff_cancel_right' mset_sort)
  then have m: "mset (butlast ?ys) = mset (remove1 (Max (set sims)) sims)" by simp
  have s: "sorted (butlast ?ys)" by (simp add: sorted_butlast ne)
  show ?thesis using properties_for_sort[OF m s] by simp
qed

lemma second_is_Max_rest:
  assumes "length sims \<ge> 2"
  shows "rev (sort sims) ! 1 = Max (set (remove1 (Max (set sims)) (sims::real list)))"
proof -
  let ?ys = "sort sims"
  let ?r = "remove1 (Max (set sims)) sims"
  have ne: "sims \<noteq> []" using assms by auto
  have len: "length ?ys = length sims" by simp
  have Min: "Max (set sims) \<in> set sims" using ne by simp
  have lr: "length ?r = length sims - 1" using Min by (simp add: length_remove1)
  then have rne: "?r \<noteq> []" using assms by auto
  have "rev ?ys ! 1 = ?ys ! (length sims - 2)"
    using assms len by (simp add: rev_nth numeral_2_eq_2)
  also have "\<dots> = butlast ?ys ! (length sims - 2)"
    using assms len by (simp add: nth_butlast)
  also have "\<dots> = last (butlast ?ys)"
  proof -
    have bl: "length (butlast ?ys) = length sims - 1" by simp
    have bne: "butlast ?ys \<noteq> []" using bl assms by (metis rne butlast_sort[OF ne] sort_not_Nil)
    have "length sims - 2 = length (butlast ?ys) - 1" using bl by simp
    then show ?thesis using last_conv_nth[OF bne] by simp
  qed
  also have "\<dots> = last (sort ?r)" by (simp add: butlast_sort[OF ne])
  also have "\<dots> = Max (set ?r)"
    using rne by (rule last_sort_Max)
  finally show ?thesis .
qed

subsection \<open>Grouping by employee and the selection loop\<close>

lemma append_score_keys:
  "map fst (append_score acc e s) = (if e \<in> fst ` set acc then map fst acc else map fst acc @ [e])"
  by (induction acc e s rule: append_score.induct) auto

lemma append_score_distinct:
  "distinct (map fst acc) \<Longrightarrow> distinct (map fst (append_score acc e s))"
  by (simp add: append_score_keys)

lemma append_score_map_of:
  "map_of (append_score acc e s) =
     (map_of acc)(e \<mapsto> (case map_of acc e of None \<Rightarrow> [s] | Some v \<Rightarrow> v @ [s]))"
  by (induction acc e s rule: append_score.induct) (auto simp: fun_eq_iff)

lemma matched_sims_Nil [simp]: "matched_sims m [] e = []"
  by (simp add: matched_sims_def)

lemma matched_sims_Cons:
  "matched_sims m ((i, s) # rest) e =
     (if py_index m i = Some e then s # matched_sims m rest e else matched_sims m rest e)"
  by (simp add: matched_sims_def)

lemma group_scores_map_of:
  "group_scores m nbrs acc = Some g \<Longrightarrow>
   map_of g e =
     (case map_of acc e of
        None \<Rightarrow> if matched_sims m nbrs e = [] then None else Some (matched_sims m nbrs e)
      | Some v \<Rightarrow> Some (v @ matched_sims m nbrs e))"
proof (induction m nbrs acc arbitrary: g rule: group_scores.induct)
  case (1 m acc)
  then show ?case by (auto split: option.splits)
next
  case (2 m idx sim rest acc)
  from "2.prems" obtain e' where e': "py_index m idx = Some e'"
    and g: "group_scores m rest (append_score acc e' sim) = Some g"
    by (auto split: option.splits)
  from "2.IH"[OF e' g] show ?case
    by (auto simp: append_score_map_of matched_sims_Cons e' split: option.splits)
qed

lemma group_scores_distinct:
  "group_scores m nbrs acc = Some g \<Longrightarrow> distinct (map fst acc) \<Longrightarrow> distinct (map fst g)"
proof (induction m nbrs acc arbitrary: g rule: group_scores.induct)
  case (1 m acc)
  then show ?case by simp
next
  case (2 m idx sim rest acc)
  from "2.prems" obtain e' where e': "py_index m idx = Some e'"
    and g: "group_scores m rest (append_score acc e' sim) = Some g"
    by (auto split: option.splits)
  show ?case using "2.IH"[OF e' g] "2.prems"(2) by (simp add: append_score_distinct)
qed

lemma group_scores_Some_iff:
  "(\<exists>g. group_scores m nbrs acc = Some g) \<longleftrightarrow> (\<forall>(i, s) \<in> set nbrs. py_index m i \<noteq> None)"
  by (induction m nbrs acc rule: group_scores.induct) (auto split: option.splits)

lemma group_scores_set:
  assumes "group_scores m nbrs [] = Some g"
  shows "(e, sims) \<in> set g \<longleftrightarrow> sims = matched_sims m nbrs e \<and> sims \<noteq> []"
proof -
  have d: "distinct (map fst g)" using group_scores_distinct[OF assms] by simp
  have "map_of g e = (if matched_sims m nbrs e = [] then None else Some (matched_sims m nbrs e))"
    using group_scores_map_of[OF assms, of e] by simp
  moreover have "(e, sims) \<in> set g \<longleftrightarrow> map_of g e = Some sims"
    using d by simp
  ultimately show ?thesis by auto
qed

lemma best_loop_result:
  "best_loop weak g (bm, bc) = (bm', bc') \<Longrightarrow>
     (bm' = bm \<and> bc' = bc) \<or> (\<exists>e sims. (e, sims) \<in> set g \<and> bm' = Some e \<and> bc' = confidence_of weak sims)"
proof (induction g arbitrary: bm bc)
  case Nil
  then show ?case by simp
next
  case (Cons a g)
  obtain e sims where a: "a = (e, sims)" by (cases a)
  show ?case
  proof (cases "confidence_of weak sims > bc")
    case True
    with Cons.prems a have "best_loop weak g (Some e, confidence_of weak sims) = (bm', bc')" by simp
    from Cons.IH[OF this] show ?thesis using a by auto
  next
    case False
    with Cons.prems a have "best_loop weak g (bm, bc) = (bm', bc')" by simp
    from Cons.IH[OF this] show ?thesis by auto
  qed
qed

lemma best_loop_upper:
  "best_loop weak g (bm, bc) = (bm', bc') \<Longrightarrow>
     bc \<le> bc' \<and> (\<forall>(e, sims) \<in> set g. confidence_of weak sims \<le> bc')"
proof (induction g arbitrary: bm bc)
  case Nil
  then show ?case by simp
next
  case (Cons a g)
  obtain e sims where a: "a = (e, sims)" by (cases a)
  show ?case
  proof (cases "confidence_of weak sims > bc")
    case True
    with Cons.prems a have "best_loop weak g (Some e, confidence_of weak sims) = (bm', bc')" by simp
    from Cons.IH[OF this] show ?thesis using a True by auto
  next
    case False
    with Cons.prems a have "best_loop weak g (bm, bc) = (bm', bc')" by simp
    from Cons.IH[OF this] show ?thesis using a False by auto
  qed
qed

subsection \<open>Unfolding the matcher\<close>

lemma recognize_face_searched:
  assumes "faiss_index svc = Some ix" "emp_id_map svc \<noteq> []"
    "search ix (normalize_L2 [q]) (min 20 (length (embeddings_cache svc))) = Some nbrs"
    "group_scores (emp_id_map svc) nbrs [] = Some g"
    "best_loop weak g (None, 0) = (bm, bc)"
  shows "recognize_face weak normalize_L2 search svc q =
           (if bc \<ge> recognition_threshold svc then (bm, bc) else (None, bc))"
  using assms by (simp add: recognize_face_def Let_def)

lemma recognize_face_Some:
  assumes "recognize_face weak normalize_L2 search svc q = (Some e, c)"
  shows "\<exists>ix nbrs g. faiss_index svc = Some ix \<and>
           search ix (normalize_L2 [q]) (min 20 (length (embeddings_cache svc))) = Some nbrs \<and>
           group_scores (emp_id_map svc) nbrs [] = Some g \<and>
           best_loop weak g (None, 0) = (Some e, c) \<and> c \<ge> recognition_threshold svc"
  using assms
  by (auto simp: recognize_face_def Let_def split: option.splits if_splits prod.splits)

lemma confidence_of_single: "confidence_of weak [s] = s"
  by (simp add: confidence_of_def)

lemma confidence_of_two_best:
  assumes "length sims \<ge> 2"
  shows "confidence_of weak sims =
     (let top = Max (set sims); second = Max (set (remove1 top sims)) in
      if float32 (top - second) \<le> scalar_operand weak gap_limit
      then scalar_round weak (float32 (top + second) / 2)
      else scalar_round weak (top * scalar_operand weak penalty))"
proof -
  have ne: "sims \<noteq> []" using assms by auto
  have len: "length (rev (sort sims)) \<ge> 2" using assms by simp
  show ?thesis
    unfolding confidence_of_def Let_def top_is_Max[OF ne] second_is_Max_rest[OF assms]
    using len by (simp del: length_rev length_sort)
qed

lemma confidence_of_pair:
  assumes "b \<le> a"
  shows "confidence_of weak [a, b] =
     (if float32 (a - b) \<le> scalar_operand weak gap_limit
      then scalar_round weak (float32 (a + b) / 2)
      else scalar_round weak (a * scalar_operand weak penalty))"
proof -
  have "rev (sort [a, b]) = [a, b]" using assms by auto
  then show ?thesis by (simp add: confidence_of_def Let_def)
qed

lemma confidence_of_le_one:
  assumes "\<forall>s \<in> set sims. s \<le> 1"
  shows "confidence_of weak sims \<le> 1"
proof -
  let ?ys = "rev (sort sims)"
  have mem: "\<And>i. i < length sims \<Longrightarrow> ?ys ! i \<le> 1"
  proof -
    fix i assume "i < length sims"
    then have "?ys ! i \<in> set ?ys" by (simp del: set_rev)
    then show "?ys ! i \<le> 1" using assms by simp
  qed
  show ?thesis
  proof (cases "length sims \<ge> 2")
    case True
    then have "0 < length sims" and "1 < length sims" by auto
    then have a: "?ys ! 0 \<le> 1" and b: "?ys ! 1 \<le> 1" using mem by blast+
    have len: "length ?ys \<ge> 2" using True by simp
    have "float32 (?ys ! 0 + ?ys ! 1) \<le> 2" using a b by (intro float32_le_two) simp
    then have avg: "scalar_round weak (float32 (?ys ! 0 + ?ys ! 1) / 2) \<le> 1"
      by (intro scalar_round_le_one) simp
    have c0: "0 \<le> scalar_operand weak penalty" and c1: "scalar_operand weak penalty \<le> 1"
      using penalty_range by simp_all
    have "?ys ! 0 * scalar_operand weak penalty \<le> 1"
    proof (cases "?ys ! 0 \<le> 0")
      case True
      then have "?ys ! 0 * scalar_operand weak penalty \<le> 0" using c0 by (simp add: mult_le_0_iff)
      then show ?thesis by simp
    next
      case False
      then have "?ys ! 0 * scalar_operand weak penalty \<le> 1 * 1"
        using a c0 c1 by (intro mult_mono) simp_all
      then show ?thesis by simp
    qed
    then have pen: "scalar_round weak (?ys ! 0 * scalar_operand weak penalty) \<le> 1"
      by (rule scalar_round_le_one)
    show ?thesis
      unfolding confidence_of_def Let_def using len avg pen
      by (auto simp del: length_rev length_sort)
  next
    case False
    show ?thesis
    proof (cases "sims = []")
      case True
      then show ?thesis by (simp add: confidence_of_def)
    next
      case ne: False
      then have "?ys ! 0 \<le> 1" using mem by simp
      then show ?thesis using False ne by (simp add: confidence_of_def Let_def)
    qed
  qed
qed

lemma matched_sims_subset: "set (matched_sims m nbrs e) \<subseteq> snd ` set nbrs"
  by (auto simp: matched_sims_def)

lemma matched_ids_iff: "e \<in> set (matched_ids m nbrs) \<longleftrightarrow> matched_sims m nbrs e \<noteq> []"
  by (induction nbrs) (auto simp: matched_ids_def matched_sims_def List.map_filter_def)

subsection \<open>The two-best rule and the selected employee\<close>

lemma load_face_map_sel [simp]:
  "emp_id_map (load_face_map n svc fm) = concat (map (\<lambda>(emp, name, embs). map (\<lambda>emb. emp) embs) fm)"
  "embeddings_cache (load_face_map n svc fm) = concat (map (\<lambda>(emp, name, embs). embs) fm)"
  "faiss_index (load_face_map n svc fm) =
     (if concat (map (\<lambda>(emp, name, embs). embs) fm) \<noteq> []
      then Some (n (concat (map (\<lambda>(emp, name, embs). embs) fm))) else None)"
  "recognition_threshold (load_face_map n svc fm) = recognition_threshold svc"
  by (simp_all add: load_face_map_def Let_def)


text \<open>
  Claim C1 (amended). For every query, the confidence of an employee grouped from the
  nearest neighbours follows the two-best rule in floating point: with at least two
  matched similarities, when the float32 difference of the best two is at most the
  constant 0.08, half of their float32 sum, and otherwise the best times the constant
  0.6, each rounded as the promotion rule in force prescribes; with exactly one, that
  similarity. An employee that is returned has a matched similarity, is returned with its
  own confidence, and no grouped employee has a higher confidence.
\<close>

theorem matcher_two_best_rule:
  "(length sims \<ge> 2 \<longrightarrow>
      (let top = Max (set sims); second = Max (set (remove1 top sims)) in
         (float32 (top - second) \<le> scalar_operand weak gap_limit \<longrightarrow>
            confidence_of weak sims = scalar_round weak (float32 (top + second) / 2)) \<and>
         (float32 (top - second) > scalar_operand weak gap_limit \<longrightarrow>
            confidence_of weak sims = scalar_round weak (top * scalar_operand weak penalty)))) \<and>
   (length sims = 1 \<longrightarrow> confidence_of weak sims = hd sims) \<and>
   (recognize_face weak normalize_L2 search svc q = (Some e, c) \<longrightarrow>
      (\<exists>ix nbrs. faiss_index svc = Some ix \<and>
         search ix (normalize_L2 [q]) (min 20 (length (embeddings_cache svc))) = Some nbrs \<and>
         matched_sims (emp_id_map svc) nbrs e \<noteq> [] \<and>
         c = confidence_of weak (matched_sims (emp_id_map svc) nbrs e) \<and>
         (\<forall>e'. matched_sims (emp_id_map svc) nbrs e' \<noteq> [] \<longrightarrow>
               confidence_of weak (matched_sims (emp_id_map svc) nbrs e') \<le> c)))"
proof (intro conjI impI)
  assume "length sims \<ge> 2"
  then show "let top = Max (set sims); second = Max (set (remove1 top sims)) in
         (float32 (top - second) \<le> scalar_operand weak gap_limit \<longrightarrow>
            confidence_of weak sims = scalar_round weak (float32 (top + second) / 2)) \<and>
         (float32 (top - second) > scalar_operand weak gap_limit \<longrightarrow>
            confidence_of weak sims = scalar_round weak (top * scalar_operand weak penalty))"
    by (simp add: confidence_of_two_best Let_def)
next
  assume "length sims = 1"
  then obtain s where "sims = [s]" by (cases sims) auto
  then show "confidence_of weak sims = hd sims" by (simp add: confidence_of_single)
next
  assume r: "recognize_face weak normalize_L2 search svc q = (Some e, c)"
  let ?m = "emp_id_map svc"
  from recognize_face_Some[OF r] obtain ix nbrs g where
    ix: "faiss_index svc = Some ix" and
    nb: "search ix (normalize_L2 [q]) (min 20 (length (embeddings_cache svc))) = Some nbrs" and
    g: "group_scores ?m nbrs [] = Some g" and
    b: "best_loop weak g (None, 0) = (Some e, c)"
    by blast
  from best_loop_result[OF b] obtain sims' where
    in_g: "(e, sims') \<in> set g" and c: "c = confidence_of weak sims'" by auto
  from in_g have s': "sims' = matched_sims ?m nbrs e" and ne: "sims' \<noteq> []"
    using group_scores_set[OF g] by auto
  have up: "\<forall>e'. matched_sims ?m nbrs e' \<noteq> [] \<longrightarrow> confidence_of weak (matched_sims ?m nbrs e') \<le> c"
  proof (intro allI impI)
    fix e' assume "matched_sims ?m nbrs e' \<noteq> []"
    then have "(e', matched_sims ?m nbrs e') \<in> set g" using group_scores_set[OF g] by simp
    then show "confidence_of weak (matched_sims ?m nbrs e') \<le> c"
      using best_loop_upper[OF b] by auto
  qed
  show "\<exists>ix nbrs. faiss_index svc = Some ix \<and>
         search ix (normalize_L2 [q]) (min 20 (length (embeddings_cache svc))) = Some nbrs \<and>
         matched_sims ?m nbrs e \<noteq> [] \<and>
         c = confidence_of weak (matched_sims ?m nbrs e) \<and>
         (\<forall>e'. matched_sims ?m nbrs e' \<noteq> [] \<longrightarrow>
               confidence_of weak (matched_sims ?m nbrs e') \<le> c)"
    using ix nb s' ne c up by blast
qed

theorem matcher_two_best_rule_witness:
  "recognize_face True id
      (\<lambda>ix qs k. Some [(0, 0.75), (2, 0.5), (1, 0.6875), (3, 0.5), (4, 0.25)])
      (load_face_map id init_service
         [(''E001'', ''A'', [1::nat, 2]), (''E002'', ''B'', [3]), (''E003'', ''C'', [4, 5])]) 0
    = (Some ''E001'', 0.71875) \<and>
   confidence_of True [0.75, 0.6875] = 0.71875 \<and>
   confidence_of True [0.5, 0.25] = 5033165 / 2 ^ 24 \<and>
   confidence_of True [0.5] = 0.5 \<and>
   matched_sims [''E001'', ''E001'', ''E002'', ''E003'', ''E003'']
      [(0, 0.75), (2, 0.5), (1, 0.6875), (3, 0.5), (4, 0.25)] ''E002'' = [0.5] \<and>
   confidence_of True (matched_sims [''E001'', ''E001'', ''E002'', ''E003'', ''E003'']
      [(0, 0.75), (2, 0.5), (1, 0.6875), (3, 0.5), (4, 0.25)] ''E002'') \<le> 0.71875"
proof -
  let ?nbrs = "[(0::int, 0.75::real), (2, 0.5), (1, 0.6875), (3, 0.5), (4, 0.25)]"
  let ?search = "\<lambda>(ix::nat list) (qs::nat list) (k::nat). Some ?nbrs"
  let ?svc = "load_face_map id init_service
         [(''E001'', ''A'', [1::nat, 2]), (''E002'', ''B'', [3]), (''E003'', ''C'', [4, 5])]"
  let ?m = "[''E001'', ''E001'', ''E002'', ''E003'', ''E003'']"
  have "float32 (0.75 - 0.6875) \<le> scalar_operand True gap_limit \<longrightarrow>
          confidence_of True [0.75, 0.6875] = scalar_round True (float32 (0.75 + 0.6875) / 2)"
    using matcher_two_best_rule [where sims = "[0.75, 0.6875]" and weak = True, THEN conjunct1]
    by (simp add: Let_def)
  then have a: "confidence_of True [0.75, 0.6875] = 0.71875"
    by (simp add: scalar_round_def scalar_operand_def gap_limit_eq penalty_eq float32_eval)
  have "float32 (0.5 - 0.25) > scalar_operand True gap_limit \<longrightarrow>
          confidence_of True [0.5, 0.25] = scalar_round True (0.5 * scalar_operand True penalty)"
    using matcher_two_best_rule [where sims = "[0.5, 0.25]" and weak = True, THEN conjunct1]
    by (simp add: Let_def)
  then have b: "confidence_of True [0.5, 0.25] = 5033165 / 2 ^ 24"
    by (simp add: scalar_round_def scalar_operand_def gap_limit_eq penalty_eq float32_eval)
  have c: "confidence_of True [0.5] = 0.5"
    using matcher_two_best_rule [where sims = "[0.5]" and weak = True, THEN conjunct2, THEN conjunct1]
    by simp
  have r: "recognize_face True id ?search ?svc 0 = (Some ''E001'', 0.71875)"
    using a b c by (simp add: recognize_face_def init_service_def py_index_def)
  have m: "matched_sims ?m ?nbrs ''E002'' = [0.5]"
    by (simp add: matched_sims_def py_index_def)
  have d: "\<forall>e'. matched_sims ?m ?nbrs e' \<noteq> [] \<longrightarrow>
             confidence_of True (matched_sims ?m ?nbrs e') \<le> 0.71875"
    using matcher_two_best_rule [of "[0.5]" True id ?search ?svc 0 "''E001''" "0.71875"] r
    by simp
  have e: "confidence_of True (matched_sims ?m ?nbrs ''E002'') \<le> 0.71875"
    using d m by (metis list.distinct(1))
  show ?thesis using r a b c m e by blast
qed

text \<open>
  As stated, the claim compares the exact difference with 0.08. Two float32
  similarities whose exact difference is above 0.08 have a float32 difference that rounds,
  on a tie, to the float32 nearest to 0.08; the confidence is then half of the float32
  sum under both promotion rules, and not the best times 0.6.
\<close>

theorem rounded_gap_counterexample:
  "(12844637 / 2 ^ 27 - 4214437 / 2 ^ 28 :: real) > 0.08 \<and>
   confidence_of True [12844637 / 2 ^ 27, 4214437 / 2 ^ 28] = 934491 / 2 ^ 24 \<and>
   confidence_of False [12844637 / 2 ^ 27, 4214437 / 2 ^ 28] = 934491 / 2 ^ 24 \<and>
   (934491 / 2 ^ 24 :: real) \<noteq> 12844637 / 2 ^ 27 * 0.6"
proof -
  let ?top = "12844637 / 2 ^ 27 :: real"
  let ?second = "4214437 / 2 ^ 28 :: real"
  have le: "?second \<le> ?top" by simp
  have gap: "float32 (?top - ?second) = 10737418 / 2 ^ 27" by (simp add: float32_eval)
  have sum: "float32 (?top + ?second) / 2 = 934491 / 2 ^ 24" by (simp add: float32_eval)
  have c32: "float32 gap_limit = 10737418 / 2 ^ 27"
    unfolding gap_limit_eq by (simp add: float32_eval)
  have h32: "float32 (934491 / 2 ^ 24) = 934491 / 2 ^ 24" by (simp add: float32_eval)
  have h64: "float64 (934491 / 2 ^ 24) = 934491 / 2 ^ 24"
  proof -
    have "2 ^ 53 * (1 / 2 ^ 1074 * 2 ^ 1000) \<le> 2 * \<bar>934491 / 2 ^ 24 :: real\<bar>" by simp
    from float64_skip[OF this] show ?thesis
      by (simp add: round_half_even_def ulp_search_unfold)
  qed
  have le32: "(10737418 / 2 ^ 27 :: real) \<le> 10737418 / 2 ^ 27" by simp
  have le64: "(10737418 / 2 ^ 27 :: real) \<le> gap_limit" unfolding gap_limit_eq by simp
  have t: "confidence_of True [?top, ?second] = 934491 / 2 ^ 24"
    unfolding confidence_of_pair[OF le] scalar_round_def scalar_operand_def
    by (simp only: gap sum c32 h32 le32 if_True)
  have f: "confidence_of False [?top, ?second] = 934491 / 2 ^ 24"
    unfolding confidence_of_pair[OF le] scalar_round_def scalar_operand_def
    by (simp only: gap sum h64 le64 if_True if_False)
  have above: "(12844637 / 2 ^ 27 - 4214437 / 2 ^ 28 :: real) > 0.08" by simp
  have ne: "(934491 / 2 ^ 24 :: real) \<noteq> 12844637 / 2 ^ 27 * 0.6" by simp
  show ?thesis using t f above ne by blast
qed

subsection \<open>The recognition threshold\<close>

lemma best_loop_max:
  assumes b: "best_loop weak g (None, 0) = (bm, bc)" and ne: "g \<noteq> []"
  shows "bc = max 0 (Max (set (map (\<lambda>(e, sims). confidence_of weak sims) g)))"
proof -
  let ?C = "set (map (\<lambda>(e, sims). confidence_of weak sims) g)"
  have fin: "finite ?C" and nemp: "?C \<noteq> {}" using ne by auto
  have up: "\<forall>x \<in> ?C. x \<le> bc" using best_loop_upper[OF b] by auto
  have ge0: "0 \<le> bc" using best_loop_upper[OF b] by simp
  have "bc = 0 \<or> bc \<in> ?C" using best_loop_result[OF b] by force
  then show ?thesis
  proof
    assume z: "bc = 0"
    then have "Max ?C \<le> 0" using up fin nemp by simp
    then show ?thesis using z by simp
  next
    assume "bc \<in> ?C"
    then have "Max ?C = bc" using up fin by (intro Max_eqI) auto
    then show ?thesis using ge0 by simp
  qed
qed

lemma group_confidences:
  assumes g: "group_scores m nbrs [] = Some g"
  shows "set (map (\<lambda>(e, sims). confidence_of weak sims) g) =
         set (map (\<lambda>e. confidence_of weak (matched_sims m nbrs e)) (matched_ids m nbrs))"
proof -
  have "\<And>e sims. (e, sims) \<in> set g \<longleftrightarrow> sims = matched_sims m nbrs e \<and> e \<in> set (matched_ids m nbrs)"
    using group_scores_set[OF g] by (auto simp: matched_ids_iff)
  then show ?thesis by (auto simp: image_iff)
qed

lemma group_scores_not_Nil:
  assumes "group_scores m nbrs [] = Some g" "nbrs \<noteq> []"
  shows "g \<noteq> []"
proof -
  obtain i s rest where n: "nbrs = (i, s) # rest" using assms(2) by (cases nbrs) auto
  with assms(1) obtain e where e: "py_index m i = Some e" by (auto split: option.splits)
  then have "matched_sims m nbrs e \<noteq> []" using n by (simp add: matched_sims_Cons)
  then have "(e, matched_sims m nbrs e) \<in> set g" using group_scores_set[OF assms(1)] by simp
  then show ?thesis by auto
qed

text \<open>
  Claim C6 (amended). When the search returns neighbours with valid positions and the
  highest confidence of a grouped employee is below the recognition threshold, the
  matcher returns no employee together with that highest confidence floored at 0 (the
  running best starts at 0.0, so a negative best is reported as 0); whenever the matcher
  returns an employee, the confidence is at least the threshold.
\<close>

theorem matcher_threshold:
  "(faiss_index svc = Some ix \<and> emp_id_map svc \<noteq> [] \<and>
    search ix (normalize_L2 [q]) (min 20 (length (embeddings_cache svc))) = Some nbrs \<and>
    nbrs \<noteq> [] \<and> (\<forall>(i, s) \<in> set nbrs. py_index (emp_id_map svc) i \<noteq> None) \<and>
    highest_confidence weak (emp_id_map svc) nbrs < recognition_threshold svc \<longrightarrow>
      recognize_face weak normalize_L2 search svc q =
        (None, max 0 (highest_confidence weak (emp_id_map svc) nbrs))) \<and>
   (recognize_face weak normalize_L2 search svc q = (Some e, c) \<longrightarrow> c \<ge> recognition_threshold svc)"
proof (intro conjI impI)
  assume "recognize_face weak normalize_L2 search svc q = (Some e, c)"
  from recognize_face_Some[OF this] show "c \<ge> recognition_threshold svc" by blast
next
  let ?m = "emp_id_map svc"
  assume a: "faiss_index svc = Some ix \<and> ?m \<noteq> [] \<and>
    search ix (normalize_L2 [q]) (min 20 (length (embeddings_cache svc))) = Some nbrs \<and>
    nbrs \<noteq> [] \<and> (\<forall>(i, s) \<in> set nbrs. py_index ?m i \<noteq> None) \<and>
    highest_confidence weak ?m nbrs < recognition_threshold svc"
  then obtain g where g: "group_scores ?m nbrs [] = Some g"
    using group_scores_Some_iff[of ?m nbrs "[]"] by blast
  obtain bm bc where b: "best_loop weak g (None, 0) = (bm, bc)" by (cases "best_loop weak g (None, 0)")
  have gne: "g \<noteq> []" using group_scores_not_Nil[OF g] a by simp
  have bc: "bc = max 0 (highest_confidence weak ?m nbrs)"
    using best_loop_max[OF b gne] group_confidences[OF g] by (simp add: highest_confidence_def)
  have r: "recognize_face weak normalize_L2 search svc q =
           (if bc \<ge> recognition_threshold svc then (bm, bc) else (None, bc))"
    using recognize_face_searched[OF _ _ _ g b] a by blast
  show "recognize_face weak normalize_L2 search svc q = (None, max 0 (highest_confidence weak ?m nbrs))"
  proof (cases "bc \<ge> recognition_threshold svc")
    case False
    then show ?thesis using r bc by simp
  next
    case True
    have "bm = None"
    proof (rule ccontr)
      assume "bm \<noteq> None"
      then obtain e' sims where "(e', sims) \<in> set g" and "bc = confidence_of weak sims"
        using best_loop_result[OF b] by auto
      then have "bc \<in> set (map (\<lambda>(e, sims). confidence_of weak sims) g)" by force
      then have "bc \<le> highest_confidence weak ?m nbrs"
        unfolding highest_confidence_def group_confidences[OF g, symmetric] by simp
      then show False using True a by simp
    qed
    then show ?thesis using r bc True by simp
  qed
qed

theorem matcher_threshold_witness:
  "recognize_face True id (\<lambda>ix qs k. Some [(0, 0.5), (1, 0.25), (2, 0.125)])
      (load_face_map id init_service [(''E003'', ''C'', [1::nat, 2]), (''E004'', ''D'', [3])]) 0
     = (None, 5033165 / 2 ^ 24) \<and>
   highest_confidence True [''E003'', ''E003'', ''E004''] [(0, 0.5), (1, 0.25), (2, 0.125)]
     = 5033165 / 2 ^ 24 \<and>
   recognize_face True id (\<lambda>ix qs k. Some [(0, 0.75), (1, 0.6875), (2, 0.125)])
      (load_face_map id init_service [(''E001'', ''A'', [1::nat, 2]), (''E004'', ''D'', [3])]) 0
     = (Some ''E001'', 0.71875) \<and>
   (0.71875::real) \<ge> recognition_threshold (init_service :: nat face_service)"
proof -
  let ?s1 = "\<lambda>(ix::nat list) (qs::nat list) (k::nat). Some [(0::int, 0.5::real), (1, 0.25), (2, 0.125)]"
  let ?svc1 = "load_face_map id init_service [(''E003'', ''C'', [1::nat, 2]), (''E004'', ''D'', [3])]"
  let ?s2 = "\<lambda>(ix::nat list) (qs::nat list) (k::nat). Some [(0::int, 0.75::real), (1, 0.6875), (2, 0.125)]"
  let ?svc2 = "load_face_map id init_service [(''E001'', ''A'', [1::nat, 2]), (''E004'', ''D'', [3])]"
  have c1: "confidence_of True [0.5, 0.25] = 5033165 / 2 ^ 24"
    by (simp add: confidence_of_pair scalar_round_def scalar_operand_def gap_limit_eq penalty_eq float32_eval)
  have c2: "confidence_of True [0.75, 0.6875] = 0.71875"
    by (simp add: confidence_of_pair scalar_round_def scalar_operand_def gap_limit_eq penalty_eq float32_eval)
  have c3: "confidence_of True [0.125] = 0.125" by (rule confidence_of_single)
  have h: "highest_confidence True [''E003'', ''E003'', ''E004''] [(0, 0.5), (1, 0.25), (2, 0.125)]
             = 5033165 / 2 ^ 24"
    using c1 c3
    by (simp add: highest_confidence_def matched_ids_def matched_sims_def List.map_filter_def
          py_index_def)
  have a: "recognize_face True id ?s1 ?svc1 0 = (None, 5033165 / 2 ^ 24)"
    using matcher_threshold [of ?svc1 "[1, 2, 3]" ?s1 id 0 "[(0, 0.5), (1, 0.25), (2, 0.125)]"
        True "''E003''" "0.3"] h
    by (simp add: init_service_def py_index_def)
  have r: "recognize_face True id ?s2 ?svc2 0 = (Some ''E001'', 0.71875)"
    using c2 c3 by (simp add: recognize_face_def init_service_def py_index_def)
  have b: "(0.71875::real) \<ge> recognition_threshold (init_service :: nat face_service)"
    using matcher_threshold [of ?svc2 "[1, 2, 3]" ?s2 id 0 "[]" True "''E001''" "0.71875"] r
    by simp
  show ?thesis using h a r b by blast
qed

text \<open>
  As stated, the claim has the best confidence observed returned: with one enrolled
  embedding at similarity -0.2 the highest confidence is -0.2, below the default
  threshold, and the matcher returns 0.
\<close>

theorem matcher_negative_counterexample:
  "highest_confidence True [''E001''] [(0, - 0.2)] = - 0.2 \<and>
   highest_confidence True [''E001''] [(0, - 0.2)] < recognition_threshold (init_service :: nat face_service) \<and>
   recognize_face True id (\<lambda>ix qs k. Some [(0, - 0.2)])
      (load_face_map id init_service [(''E001'', ''A'', [1::nat])]) 0 = (None, 0) \<and>
   snd (recognize_face True id (\<lambda>ix qs k. Some [(0, - 0.2)])
      (load_face_map id init_service [(''E001'', ''A'', [1::nat])]) 0)
     \<noteq> highest_confidence True [''E001''] [(0, - 0.2)] \<and>
   highest_confidence False [''E001''] [(0, - 0.2)] = - 0.2 \<and>
   recognize_face False id (\<lambda>ix qs k. Some [(0, - 0.2)])
      (load_face_map id init_service [(''E001'', ''A'', [1::nat])]) 0 = (None, 0)"
  by (simp add: recognize_face_def highest_confidence_def matched_ids_def matched_sims_def
        List.map_filter_def init_service_def py_index_def confidence_of_single)

subsection \<open>Empty enrollment and the range of the confidence\<close>

text \<open>
  Claim C7. When the face map that is loaded contributes no embedding at all (in
  particular when it is empty), the index is the explicit empty state \<open>None\<close> and
  every query returns \<open>(None, 0.0)\<close>, whatever the search would do.
\<close>

theorem empty_enrollment_no_match:
  "(\<forall>(emp, name, embs) \<in> set fm. embs = []) \<Longrightarrow>
   faiss_index (load_face_map normalize_L2 svc fm) = None \<and>
   recognize_face weak normalize_L2' search (load_face_map normalize_L2 svc fm) q = (None, 0)"
proof -
  assume a: "\<forall>(emp, name, embs) \<in> set fm. embs = []"
  then have "concat (map (\<lambda>(emp, name, embs). embs) fm) = []" by auto
  then have "faiss_index (load_face_map normalize_L2 svc fm) = None" by simp
  then show ?thesis by (simp add: recognize_face_def)
qed

theorem empty_enrollment_no_match_witness:
  "recognize_face True id (\<lambda>ix qs k. Some [(0, 0.9)])
     (load_face_map id init_service [(''E001'', ''A'', [] :: nat list)]) 7 = (None, 0) \<and>
   recognize_face True id (\<lambda>ix qs k. Some [(0, 0.9)])
     (load_face_map id init_service ([] :: (string \<times> string \<times> nat list) list)) 7 = (None, 0)"
proof -
  have h1: "\<forall>(emp, name, embs) \<in> set [(''E001'', ''A'', [] :: nat list)]. embs = []" by simp
  have h2: "\<forall>(emp, name, embs) \<in> set ([] :: (string \<times> string \<times> nat list) list). embs = []" by simp
  show ?thesis
    using empty_enrollment_no_match [OF h1, of id init_service True id "\<lambda>ix qs k. Some [(0, 0.9)]" 7]
      empty_enrollment_no_match [OF h2, of id init_service True id "\<lambda>ix qs k. Some [(0, 0.9)]" 7]
    by blast
qed

lemma best_loop_range:
  assumes b: "best_loop weak g (None, 0) = (bm, bc)"
    and le: "\<forall>(e, sims) \<in> set g. \<forall>s \<in> set sims. s \<le> 1"
  shows "0 \<le> bc \<and> bc \<le> 1"
proof -
  have "0 \<le> bc" using best_loop_upper[OF b] by simp
  moreover have "bc \<le> 1"
    using best_loop_result[OF b]
  proof
    assume "bm = None \<and> bc = 0" then show ?thesis by simp
  next
    assume "\<exists>e sims. (e, sims) \<in> set g \<and> bm = Some e \<and> bc = confidence_of weak sims"
    then obtain e sims where "(e, sims) \<in> set g" and c: "bc = confidence_of weak sims" by blast
    then have "\<forall>s \<in> set sims. s \<le> 1" using le by auto
    then show ?thesis using c confidence_of_le_one by simp
  qed
  ultimately show ?thesis by simp
qed

text \<open>
  Claim C8. When every similarity the search returns lies in \<open>[-1, 1]\<close>, the
  confidence the matcher returns lies in \<open>[0, 1]\<close>, for every query and every state of
  the service (no index, failed search and invalid positions included).
\<close>

theorem matcher_confidence_range:
  assumes sims: "\<forall>ix qs k nbrs. search ix qs k = Some nbrs \<longrightarrow> (\<forall>(i, s) \<in> set nbrs. - 1 \<le> s \<and> s \<le> 1)"
  shows "0 \<le> snd (recognize_face weak normalize_L2 search svc q) \<and>
         snd (recognize_face weak normalize_L2 search svc q) \<le> 1"
proof (cases "faiss_index svc")
  case None
  then show ?thesis by (simp add: recognize_face_def)
next
  case (Some ix)
  show ?thesis
  proof (cases "emp_id_map svc = []")
    case True
    then show ?thesis using Some by (simp add: recognize_face_def)
  next
    case ne: False
    show ?thesis
    proof (cases "search ix (normalize_L2 [q]) (min 20 (length (embeddings_cache svc)))")
      case None
      then show ?thesis using Some ne by (simp add: recognize_face_def Let_def)
    next
      case nb: (Some nbrs)
      show ?thesis
      proof (cases "group_scores (emp_id_map svc) nbrs []")
        case None
        then show ?thesis using Some ne nb by (simp add: recognize_face_def Let_def)
      next
        case g: (Some g)
        obtain bm bc where b: "best_loop weak g (None, 0) = (bm, bc)" by (cases "best_loop weak g (None, 0)")
        have "\<forall>(e, sims) \<in> set g. \<forall>s \<in> set sims. s \<le> 1"
        proof (clarify)
          fix e sims' s assume "(e, sims') \<in> set g" and s: "s \<in> set sims'"
          then have "sims' = matched_sims (emp_id_map svc) nbrs e" using group_scores_set[OF g] by simp
          then have "s \<in> snd ` set nbrs" using s matched_sims_subset by blast
          then show "s \<le> 1" using sims nb by fastforce
        qed
        then have "0 \<le> bc \<and> bc \<le> 1" using best_loop_range[OF b] by simp
        moreover have "recognize_face weak normalize_L2 search svc q =
            (if bc \<ge> recognition_threshold svc then (bm, bc) else (None, bc))"
          using Some ne nb g b by (rule recognize_face_searched)
        ultimately show ?thesis by simp
      qed
    qed
  qed
qed

theorem matcher_confidence_range_witness:
  "recognize_face True id (\<lambda>ix qs k. Some [(0, 0.75), (1, - 0.5), (2, 0.25)])
      (load_face_map id init_service [(''E001'', ''A'', [1::nat, 2]), (''E004'', ''D'', [3])]) 0
     = (Some ''E001'', 15099495 / 2 ^ 25) \<and>
   0 \<le> snd (recognize_face True id (\<lambda>ix qs k. Some [(0, 0.75), (1, - 0.5), (2, 0.25)])
      (load_face_map id init_service [(''E001'', ''A'', [1::nat, 2]), (''E004'', ''D'', [3])]) 0) \<and>
   snd (recognize_face True id (\<lambda>ix qs k. Some [(0, 0.75), (1, - 0.5), (2, 0.25)])
      (load_face_map id init_service [(''E001'', ''A'', [1::nat, 2]), (''E004'', ''D'', [3])]) 0) \<le> 1"
proof -
  let ?s = "\<lambda>(ix::nat list) (qs::nat list) (k::nat). Some [(0::int, 0.75::real), (1, - 0.5), (2, 0.25)]"
  let ?svc = "load_face_map id init_service [(''E001'', ''A'', [1::nat, 2]), (''E004'', ''D'', [3])]"
  have h: "\<forall>ix qs k nbrs. ?s ix qs k = Some nbrs \<longrightarrow> (\<forall>(i, s) \<in> set nbrs. - 1 \<le> s \<and> s \<le> 1)"
    by auto
  have c1: "confidence_of True [0.75, - 0.5] = 15099495 / 2 ^ 25"
    by (simp add: confidence_of_pair scalar_round_def scalar_operand_def gap_limit_eq penalty_eq float32_eval)
  have c2: "confidence_of True [0.25] = 0.25" by (rule confidence_of_single)
  have r: "recognize_face True id ?s ?svc 0 = (Some ''E001'', 15099495 / 2 ^ 25)"
    using c1 c2 by (simp add: recognize_face_def init_service_def py_index_def)
  show ?thesis
    using r matcher_confidence_range [OF h, of True id ?svc 0]
    by simp
qed

section \<open>Properties of the attendance ledger\<close>

subsection \<open>The first sighting of the day\<close>

lemma select_log_None_iff:
  "select_log db e d = None \<longleftrightarrow> rows_of db e d = []"
  by (auto simp: select_log_def rows_of_def find_None_iff filter_empty_conv)

lemma select_log_Some:
  "select_log db e d = Some r \<Longrightarrow> r \<in> set (attendance_logs db) \<and> emp_id r = e \<and> date r = d"
  by (auto simp: select_log_def find_Some_iff)

lemma insert_log_Inr:
  "insert_log db e d t cam conf = Inr db' \<Longrightarrow>
     db' = db \<lparr> attendance_logs := attendance_logs db @
             [\<lparr> log_id = next_id (attendance_logs db), emp_id = e, date = d,
                first_in = Some t, last_out = None,
                in_camera_id = Some cam, out_camera_id = None,
                in_confidence = Some conf, out_confidence = None \<rparr>] \<rparr>"
  by (simp add: insert_log_def split: if_splits)

text \<open>
  Claim C3. When no record exists for the employee on the timestamp's day, a successful
  call with event type OUT appends exactly one record for that employee and day, with
  first-IN set to the event's time, camera and confidence and with last-OUT (time,
  camera and confidence) unset.
\<close>

theorem out_without_record_sets_first_in:
  assumes none: "rows_of db e (today ts) = []"
    and call: "log_attendance_update_only db e ''OUT'' cam conf ts = (res, db')"
    and ok: "success res"
  shows "action res = Some ''inserted'' \<and>
         (\<exists>r. attendance_logs db' = attendance_logs db @ [r] \<and>
              rows_of db' e (today ts) = [r] \<and>
              emp_id r = e \<and> date r = today ts \<and>
              first_in r = Some (time_only ts) \<and> in_camera_id r = Some cam \<and>
              in_confidence r = Some conf \<and>
              last_out r = None \<and> out_camera_id r = None \<and> out_confidence r = None)"
proof -
  have sel: "select_log db e (today ts) = None" using none by (simp add: select_log_None_iff)
  show ?thesis
  proof (cases "insert_log db e (today ts) (time_only ts) cam conf")
    case (Inl err)
    then have "res = failed_result (pg_message err)"
      using call sel by (simp add: log_attendance_update_only_def)
    then show ?thesis using ok by (simp add: failed_result_def)
  next
    case (Inr db1)
    then have r: "res = ok_result ''IN logged (EXIT camera used)'' ''inserted''" and d: "db' = db1"
      using call sel by (simp_all add: log_attendance_update_only_def)
    show ?thesis
      using insert_log_Inr[OF Inr] r d none
      by (simp add: ok_result_def rows_of_def)
  qed
qed

theorem out_without_record_sets_first_in_witness:
  "log_attendance_update_only \<lparr> employees = [''E001''], attendance_logs = [] \<rparr>
      ''E001'' ''OUT'' ''exit_camera'' 0.83 (Naive 45000)
   = (\<lparr> success = True, message = ''IN logged (EXIT camera used)'', action = Some ''inserted'' \<rparr>,
      \<lparr> employees = [''E001''],
        attendance_logs =
          [\<lparr> log_id = 1, emp_id = ''E001'', date = 0,
             first_in = Some 64800, last_out = None,
             in_camera_id = Some ''exit_camera'', out_camera_id = None,
             in_confidence = Some 0.83, out_confidence = None \<rparr>] \<rparr>)"
proof -
  let ?db = "\<lparr> employees = [''E001''], attendance_logs = [] \<rparr>"
  let ?res = "\<lparr> success = True, message = ''IN logged (EXIT camera used)'', action = Some ''inserted'' \<rparr>"
  let ?db' = "\<lparr> employees = [''E001''],
        attendance_logs =
          [\<lparr> log_id = 1, emp_id = ''E001'', date = 0,
             first_in = Some 64800, last_out = None,
             in_camera_id = Some ''exit_camera'', out_camera_id = None,
             in_confidence = Some 0.83, out_confidence = None \<rparr>] \<rparr>"
  have none: "rows_of ?db ''E001'' (today (Naive 45000)) = []" by (simp add: rows_of_def)
  have call: "log_attendance_update_only ?db ''E001'' ''OUT'' ''exit_camera'' 0.83 (Naive 45000) = (?res, ?db')"
    by (simp add: log_attendance_update_only_def select_log_def insert_log_def next_id_def
          ok_result_def today_def time_only_def timestamp_ist_def)
  have ok: "success ?res" by simp
  from out_without_record_sets_first_in [OF none call ok] call show ?thesis by simp
qed

subsection \<open>The action of a successful call\<close>

text \<open>
  Claim C5 (amended). Every call that succeeds has event type IN or OUT and returns an
  action that is one of exactly \<open>inserted\<close>, \<open>updated\<close> and \<open>skipped\<close>.
\<close>

theorem successful_action_values:
  assumes call: "log_attendance_update_only db e event_type cam conf ts = (res, db')"
    and ok: "success res"
  shows "(event_type = ''IN'' \<or> event_type = ''OUT'') \<and>
         action res \<in> {Some ''inserted'', Some ''updated'', Some ''skipped''}"
  using call ok
  by (auto simp: log_attendance_update_only_def ok_result_def failed_result_def
           split: if_splits option.splits sum.splits)

theorem successful_action_values_witness:
  "success (fst (log_attendance_update_only \<lparr> employees = [''E001''], attendance_logs = [] \<rparr>
      ''E001'' ''IN'' ''entry_camera'' 0.9 (Naive 0))) \<and>
   action (fst (log_attendance_update_only \<lparr> employees = [''E001''], attendance_logs = [] \<rparr>
      ''E001'' ''IN'' ''entry_camera'' 0.9 (Naive 0)))
     \<in> {Some ''inserted'', Some ''updated'', Some ''skipped''}"
proof -
  let ?call = "log_attendance_update_only \<lparr> employees = [''E001''], attendance_logs = [] \<rparr>
      ''E001'' ''IN'' ''entry_camera'' 0.9 (Naive 0)"
  have ok: "success (fst ?call)"
    by (simp add: log_attendance_update_only_def select_log_def insert_log_def ok_result_def
          today_def time_only_def timestamp_ist_def)
  have c: "?call = (fst ?call, snd ?call)" by simp
  from successful_action_values [OF c ok] ok show ?thesis by simp
qed

text \<open>
  As stated, the claim names the action of a new record \<open>created\<close>: the first IN of
  an enrolled employee succeeds with the action \<open>inserted\<close>, which is none of
  \<open>created\<close>, \<open>updated\<close> and \<open>skipped\<close>.
\<close>

theorem created_action_counterexample:
  "success (fst (log_attendance_update_only \<lparr> employees = [''E001''], attendance_logs = [] \<rparr>
      ''E001'' ''IN'' ''entry_camera'' 0.9 (Naive 0))) \<and>
   action (fst (log_attendance_update_only \<lparr> employees = [''E001''], attendance_logs = [] \<rparr>
      ''E001'' ''IN'' ''entry_camera'' 0.9 (Naive 0))) = Some ''inserted'' \<and>
   action (fst (log_attendance_update_only \<lparr> employees = [''E001''], attendance_logs = [] \<rparr>
      ''E001'' ''IN'' ''entry_camera'' 0.9 (Naive 0)))
     \<notin> {Some ''created'', Some ''updated'', Some ''skipped''}"
  by (simp add: log_attendance_update_only_def select_log_def insert_log_def ok_result_def
        today_def time_only_def timestamp_ist_def)

subsection \<open>Repeated IN events\<close>

lemma in_with_record_skipped:
  assumes "rows_of db e (today ts) \<noteq> []"
  shows "log_attendance_update_only db e ''IN'' cam conf ts =
           (ok_result ''IN already logged'' ''skipped'', db)"
proof -
  obtain r where "select_log db e (today ts) = Some r"
    using assms select_log_None_iff[of db e "today ts"] by (cases "select_log db e (today ts)") auto
  then show ?thesis by (simp add: log_attendance_update_only_def)
qed

lemma repeated_in_skipped:
  assumes "rows_of db e d \<noteq> []" "\<forall>(cam, conf, ts) \<in> set cs. today ts = d"
  shows "log_events db e (map (\<lambda>(cam, conf, ts). (''IN'', cam, conf, ts)) cs) =
           (replicate (length cs) (ok_result ''IN already logged'' ''skipped''), db)"
  using assms
proof (induction cs)
  case Nil
  then show ?case by simp
next
  case (Cons c cs)
  obtain cam conf ts where c: "c = (cam, conf, ts)" by (cases c)
  have d: "today ts = d" using Cons.prems(2) c by simp
  have "log_attendance_update_only db e ''IN'' cam conf ts =
          (ok_result ''IN already logged'' ''skipped'', db)"
    using in_with_record_skipped[of db e ts cam conf] Cons.prems(1) d by simp
  moreover have "log_events db e (map (\<lambda>(cam, conf, ts). (''IN'', cam, conf, ts)) cs) =
           (replicate (length cs) (ok_result ''IN already logged'' ''skipped''), db)"
    using Cons.IH Cons.prems by simp
  ultimately show ?case using c by simp
qed

text \<open>
  Claim C2. When no record exists for the employee on the day and the first IN call
  succeeds, that call creates exactly one record for the employee and day, with first-IN
  set to its time, camera and confidence; every later IN call for the employee on that
  day returns the action \<open>skipped\<close> and leaves the store as it is.
\<close>

theorem repeated_in_recorded_once:
  assumes none: "rows_of db e (today ts) = []"
    and first: "log_attendance_update_only db e ''IN'' cam conf ts = (res, db1)"
    and ok: "success res"
    and days: "\<forall>(cam', conf', ts') \<in> set cs. today ts' = today ts"
  shows "action res = Some ''inserted'' \<and>
         (\<exists>r. attendance_logs db1 = attendance_logs db @ [r] \<and>
              rows_of db1 e (today ts) = [r] \<and>
              first_in r = Some (time_only ts) \<and> in_camera_id r = Some cam \<and>
              in_confidence r = Some conf \<and> last_out r = None) \<and>
         log_events db1 e (map (\<lambda>(cam', conf', ts'). (''IN'', cam', conf', ts')) cs) =
           (replicate (length cs)
              \<lparr> success = True, message = ''IN already logged'', action = Some ''skipped'' \<rparr>, db1)"
proof -
  have sel: "select_log db e (today ts) = None" using none by (simp add: select_log_None_iff)
  obtain db2 where ins: "insert_log db e (today ts) (time_only ts) cam conf = Inr db2"
    using first sel ok
    by (cases "insert_log db e (today ts) (time_only ts) cam conf")
       (auto simp: log_attendance_update_only_def failed_result_def)
  then have r: "res = ok_result ''IN logged'' ''inserted''" and d: "db1 = db2"
    using first sel by (simp_all add: log_attendance_update_only_def)
  have rows: "\<exists>r. attendance_logs db1 = attendance_logs db @ [r] \<and>
              rows_of db1 e (today ts) = [r] \<and>
              first_in r = Some (time_only ts) \<and> in_camera_id r = Some cam \<and>
              in_confidence r = Some conf \<and> last_out r = None"
    using insert_log_Inr[OF ins] d none by (simp add: rows_of_def)
  then have ne: "rows_of db1 e (today ts) \<noteq> []" by auto
  show ?thesis
    using r rows repeated_in_skipped[OF ne days] by (simp add: ok_result_def)
qed

theorem repeated_in_recorded_once_witness:
  "log_events \<lparr> employees = [''E001''], attendance_logs = [] \<rparr> ''E001''
      [(''IN'', ''entry_camera'', 0.9, Naive 12600), (''IN'', ''entry_camera'', 0.7, Naive 12660),
       (''IN'', ''exit_camera'', 0.8, Naive 30000)]
   = ([\<lparr> success = True, message = ''IN logged'', action = Some ''inserted'' \<rparr>,
       \<lparr> success = True, message = ''IN already logged'', action = Some ''skipped'' \<rparr>,
       \<lparr> success = True, message = ''IN already logged'', action = Some ''skipped'' \<rparr>],
      \<lparr> employees = [''E001''],
        attendance_logs =
          [\<lparr> log_id = 1, emp_id = ''E001'', date = 0,
             first_in = Some 32400, last_out = None,
             in_camera_id = Some ''entry_camera'', out_camera_id = None,
             in_confidence = Some 0.9, out_confidence = None \<rparr>] \<rparr>)"
proof -
  let ?db = "\<lparr> employees = [''E001''], attendance_logs = [] \<rparr>"
  let ?res = "\<lparr> success = True, message = ''IN logged'', action = Some ''inserted'' \<rparr>"
  let ?db1 = "\<lparr> employees = [''E001''],
        attendance_logs =
          [\<lparr> log_id = 1, emp_id = ''E001'', date = 0,
             first_in = Some 32400, last_out = None,
             in_camera_id = Some ''entry_camera'', out_camera_id = None,
             in_confidence = Some 0.9, out_confidence = None \<rparr>] \<rparr>"
  let ?cs = "[(''entry_camera'', 0.7::real, Naive 12660), (''exit_camera'', 0.8, Naive 30000)]"
  have none: "rows_of ?db ''E001'' (today (Naive 12600)) = []" by (simp add: rows_of_def)
  have first: "log_attendance_update_only ?db ''E001'' ''IN'' ''entry_camera'' 0.9 (Naive 12600) = (?res, ?db1)"
    by (simp add: log_attendance_update_only_def select_log_def insert_log_def next_id_def
          ok_result_def today_def time_only_def timestamp_ist_def)
  have ok: "success ?res" by simp
  have days: "\<forall>(cam', conf', ts') \<in> set ?cs. today ts' = today (Naive 12600)"
    by (simp add: today_def timestamp_ist_def)
  from repeated_in_recorded_once [OF none first ok days] first show ?thesis by simp
qed

subsection \<open>First-IN and last-OUT in time order\<close>

lemma ledger_inv_mono: "ledger_inv e d T db \<Longrightarrow> T \<le> T' \<Longrightarrow> ledger_inv e d T' db"
  by (fastforce simp: ledger_inv_def)

lemma ledger_inv_insert:
  assumes inv: "ledger_inv e d T db" and le: "T \<le> t"
    and ins: "insert_log db e' d' t cam conf = Inr db'"
  shows "ledger_inv e d t db'"
proof -
  have "ledger_inv e d t db" using inv le by (rule ledger_inv_mono)
  then show ?thesis
    using insert_log_Inr[OF ins] by (auto simp: ledger_inv_def rows_of_def)
qed

lemma ledger_inv_update_out:
  assumes inv: "ledger_inv e d T db" and le: "T \<le> t"
    and upd: "update_out db rid t cam conf = Inr db'"
  shows "ledger_inv e d t db'"
proof -
  have db': "attendance_logs db' =
      map (\<lambda>r. if log_id r = rid
                then r \<lparr> last_out := Some t, out_camera_id := Some cam, out_confidence := Some conf \<rparr>
                else r) (attendance_logs db)"
    using upd by (auto simp: update_out_def split: if_splits)
  show ?thesis
    unfolding ledger_inv_def
  proof
    fix r' assume "r' \<in> set (rows_of db' e d)"
    then obtain r where r: "r \<in> set (attendance_logs db)"
      and r': "r' = (if log_id r = rid
                then r \<lparr> last_out := Some t, out_camera_id := Some cam, out_confidence := Some conf \<rparr>
                else r)"
      and key: "emp_id r' = e \<and> date r' = d"
      unfolding rows_of_def db' by auto
    have "emp_id r = e \<and> date r = d" using key r' by (auto split: if_splits)
    then have "r \<in> set (rows_of db e d)" using r by (simp add: rows_of_def)
    then obtain a where a: "first_in r = Some a" "a \<le> T" "\<forall>b. last_out r = Some b \<longrightarrow> a \<le> b"
      using inv unfolding ledger_inv_def by blast
    show "\<exists>a. first_in r' = Some a \<and> a \<le> t \<and> (\<forall>b. last_out r' = Some b \<longrightarrow> a \<le> b)"
      using a le r' by (auto split: if_splits)
  qed
qed

lemma ledger_inv_step:
  assumes inv: "ledger_inv e d T db" and day: "today ts = d" and le: "T \<le> time_only ts"
    and call: "log_attendance_update_only db e event_type cam conf ts = (res, db')"
  shows "ledger_inv e d (time_only ts) db'"
proof -
  have same: "db' = db \<Longrightarrow> ?thesis" using inv le ledger_inv_mono by blast
  have sel: "\<And>r. select_log db e (today ts) = Some r \<Longrightarrow> first_in r \<noteq> None"
  proof -
    fix r assume "select_log db e (today ts) = Some r"
    then have "r \<in> set (rows_of db e d)"
      using select_log_Some[of db e "today ts" r] day by (simp add: rows_of_def)
    then show "first_in r \<noteq> None" using inv unfolding ledger_inv_def by fastforce
  qed
  show ?thesis
  proof (cases "event_type = ''IN''")
    case True
    show ?thesis
    proof (cases "select_log db e (today ts)")
      case (Some r)
      then have "db' = db" using call True by (simp add: log_attendance_update_only_def)
      then show ?thesis by (rule same)
    next
      case None
      show ?thesis
      proof (cases "insert_log db e (today ts) (time_only ts) cam conf")
        case (Inl err)
        then have "db' = db" using call True None by (simp add: log_attendance_update_only_def)
        then show ?thesis by (rule same)
      next
        case (Inr db1)
        then have "db' = db1" using call True None by (simp add: log_attendance_update_only_def)
        then show ?thesis using ledger_inv_insert[OF inv le Inr] by simp
      qed
    qed
  next
    case notin: False
    show ?thesis
    proof (cases "event_type = ''OUT''")
      case False
      then have "db' = db" using call notin by (simp add: log_attendance_update_only_def)
      then show ?thesis by (rule same)
    next
      case True
      show ?thesis
      proof (cases "select_log db e (today ts)")
        case None
        show ?thesis
        proof (cases "insert_log db e (today ts) (time_only ts) cam conf")
          case (Inl err)
          then have "db' = db" using call True None by (simp add: log_attendance_update_only_def)
          then show ?thesis by (rule same)
        next
          case (Inr db1)
          then have "db' = db1" using call True None by (simp add: log_attendance_update_only_def)
          then show ?thesis using ledger_inv_insert[OF inv le Inr] by simp
        qed
      next
        case (Some r)
        have fi: "first_in r \<noteq> None" using sel Some by simp
        show ?thesis
        proof (cases "update_out db (log_id r) (time_only ts) cam conf")
          case (Inl err)
          then have "db' = db" using call True Some fi by (simp add: log_attendance_update_only_def)
          then show ?thesis by (rule same)
        next
          case (Inr db1)
          then have "db' = db1" using call True Some fi by (simp add: log_attendance_update_only_def)
          then show ?thesis using ledger_inv_update_out[OF inv le Inr] by simp
        qed
      qed
    qed
  qed
qed

lemma same_day_time_only_mono:
  assumes "today a = today b" "timestamp_ist a \<le> timestamp_ist b"
  shows "time_only a \<le> time_only b"
proof -
  have "timestamp_ist a = 86400 * today a + time_only a"
    and "timestamp_ist b = 86400 * today b + time_only b"
    by (simp_all add: today_def time_only_def)
  then show ?thesis using assms by simp
qed

lemma ledger_inv_events:
  assumes "ledger_inv e d T db"
    and "\<forall>(k, cam, conf, ts) \<in> set calls. today ts = d \<and> T \<le> time_only ts"
    and "sorted (map (\<lambda>(k, cam, conf, ts). timestamp_ist ts) calls)"
    and "log_events db e calls = (ress, db')"
  shows "\<exists>T'. ledger_inv e d T' db'"
  using assms
proof (induction calls arbitrary: db T ress)
  case Nil
  then show ?case by auto
next
  case (Cons c calls)
  obtain k cam conf ts where c: "c = (k, cam, conf, ts)" by (cases c)
  obtain res db1 where call: "log_attendance_update_only db e k cam conf ts = (res, db1)"
    by (cases "log_attendance_update_only db e k cam conf ts")
  obtain ress1 where rest: "log_events db1 e calls = (ress1, db')"
    using Cons.prems(4) c call by (auto split: prod.splits)
  have day: "today ts = d" and le: "T \<le> time_only ts" using Cons.prems(2) c by auto
  have inv1: "ledger_inv e d (time_only ts) db1"
    using ledger_inv_step[OF Cons.prems(1) day le call] .
  have later: "\<forall>(k', cam', conf', ts') \<in> set calls. today ts' = d \<and> time_only ts \<le> time_only ts'"
  proof (clarify)
    fix k' cam' conf' ts' assume m: "(k', cam', conf', ts') \<in> set calls"
    then have d': "today ts' = d" using Cons.prems(2) by auto
    have "timestamp_ist ts \<le> timestamp_ist ts'"
      using Cons.prems(3) c m by force
    then show "today ts' = d \<and> time_only ts \<le> time_only ts'"
      using d' day same_day_time_only_mono[of ts ts'] by simp
  qed
  have srt: "sorted (map (\<lambda>(k, cam, conf, ts). timestamp_ist ts) calls)"
    using Cons.prems(3) by simp
  show ?case using Cons.IH[OF inv1 later srt rest] .
qed

text \<open>
  Claim C4 (amended). For every sequence of calls for one employee whose timestamps
  all fall on one calendar day and are in non-decreasing order, in any interleaving of
  event types and starting with no record for the employee on that day, every record of
  the employee and day in the final store has first-IN no later than last-OUT whenever
  both are set.
\<close>

theorem first_in_before_last_out:
  assumes none: "rows_of db e d = []"
    and days: "\<forall>(k, cam, conf, ts) \<in> set calls. today ts = d"
    and order: "sorted (map (\<lambda>(k, cam, conf, ts). timestamp_ist ts) calls)"
    and run: "log_events db e calls = (ress, db')"
  shows "\<forall>r \<in> set (rows_of db' e d). \<forall>a b. first_in r = Some a \<and> last_out r = Some b \<longrightarrow> a \<le> b"
proof -
  have inv0: "ledger_inv e d 0 db" using none by (simp add: ledger_inv_def)
  have b: "\<forall>(k, cam, conf, ts) \<in> set calls. today ts = d \<and> 0 \<le> time_only ts"
    using days by (auto simp: time_only_def)
  obtain T' where "ledger_inv e d T' db'"
    using ledger_inv_events[OF inv0 b order run] by blast
  then show ?thesis unfolding ledger_inv_def by fastforce
qed

theorem first_in_before_last_out_witness:
  "snd (log_events \<lparr> employees = [''E001''], attendance_logs = [] \<rparr> ''E001''
      [(''IN'', ''entry_camera'', 0.9, Naive 12600), (''OUT'', ''exit_camera'', 0.8, Naive 41400),
       (''IN'', ''entry_camera'', 0.7, Naive 41700), (''OUT'', ''exit_camera'', 0.6, Naive 45000)])
   = \<lparr> employees = [''E001''],
       attendance_logs =
          [\<lparr> log_id = 1, emp_id = ''E001'', date = 0,
             first_in = Some 32400, last_out = Some 64800,
             in_camera_id = Some ''entry_camera'', out_camera_id = Some ''exit_camera'',
             in_confidence = Some 0.9, out_confidence = Some 0.6 \<rparr>] \<rparr> \<and>
   (32400::int) \<le> 64800"
proof -
  let ?db = "\<lparr> employees = [''E001''], attendance_logs = [] \<rparr>"
  let ?calls = "[(''IN'', ''entry_camera'', 0.9::real, Naive 12600), (''OUT'', ''exit_camera'', 0.8, Naive 41400),
       (''IN'', ''entry_camera'', 0.7, Naive 41700), (''OUT'', ''exit_camera'', 0.6, Naive 45000)]"
  let ?row = "\<lparr> log_id = 1, emp_id = ''E001'', date = 0,
             first_in = Some 32400, last_out = Some 64800,
             in_camera_id = Some ''entry_camera'', out_camera_id = Some ''exit_camera'',
             in_confidence = Some 0.9, out_confidence = Some 0.6 \<rparr>"
  let ?db' = "\<lparr> employees = [''E001''], attendance_logs = [?row] \<rparr>"
  have none: "rows_of ?db ''E001'' 0 = []" by (simp add: rows_of_def)
  have days: "\<forall>(k, cam, conf, ts) \<in> set ?calls. today ts = 0"
    by (simp add: today_def timestamp_ist_def)
  have order: "sorted (map (\<lambda>(k, cam, conf, ts). timestamp_ist ts) ?calls)"
    by (simp add: timestamp_ist_def)
  have fin: "snd (log_events ?db ''E001'' ?calls) = ?db'"
    by (simp add: log_attendance_update_only_def select_log_def insert_log_def update_out_def
          next_id_def ok_result_def today_def time_only_def timestamp_ist_def)
  have run: "log_events ?db ''E001'' ?calls = (fst (log_events ?db ''E001'' ?calls), ?db')"
    using fin by (metis prod.collapse)
  have "?row \<in> set (rows_of ?db' ''E001'' 0)" by (simp add: rows_of_def)
  then have "(32400::int) \<le> 64800"
    using first_in_before_last_out [OF none days order run] by fastforce
  then show ?thesis using fin by simp
qed

text \<open>
  As stated, the claim covers every order of the calls: an IN stamped 10:00 followed
  by an OUT stamped 09:00 of the same day leaves first-IN at 10:00 and last-OUT at 09:00.
\<close>

theorem out_of_order_counterexample:
  "snd (log_events \<lparr> employees = [''E001''], attendance_logs = [] \<rparr> ''E001''
      [(''IN'', ''entry_camera'', 0.9, Naive 16200), (''OUT'', ''exit_camera'', 0.8, Naive 12600)])
   = \<lparr> employees = [''E001''],
       attendance_logs =
          [\<lparr> log_id = 1, emp_id = ''E001'', date = 0,
             first_in = Some 36000, last_out = Some 32400,
             in_camera_id = Some ''entry_camera'', out_camera_id = Some ''exit_camera'',
             in_confidence = Some 0.9, out_confidence = Some 0.8 \<rparr>] \<rparr> \<and>
   today (Naive 16200) = today (Naive 12600) \<and>
   \<not> ((36000::int) \<le> 32400)"
  by (simp add: log_attendance_update_only_def select_log_def insert_log_def update_out_def
        next_id_def ok_result_def today_def time_only_def timestamp_ist_def)

section \<open>Properties of the camera stream worker\<close>

lemma stream_loop_all_read:
  "stream_loop c (map Some fs) =
     (map (\<lambda>i. if (c + i) mod 3 = 0 then Processed else Drained) [0..<length fs], c + length fs)"
proof (induction fs arbitrary: c)
  case Nil
  then show ?case by simp
next
  case (Cons f fs)
  have shift: "map (\<lambda>i. if (c + i) mod 3 = 0 then Processed else Drained) [0..<length (f # fs)] =
        (if c mod 3 = 0 then Processed else Drained) #
        map (\<lambda>i. if (Suc c + i) mod 3 = 0 then Processed else Drained) [0..<length fs]"
    by (simp add: upt_conv_Cons map_Suc_upt[symmetric] del: upt_Suc)
  show ?case
    unfolding shift using Cons.IH[of "Suc c"] by (simp add: FRAME_SKIP_def)
qed

text \<open>
  Claim C9 (amended). From the start of a camera worker, while every read returns a
  frame, exactly the frames whose running count is a multiple of \<open>FRAME_SKIP = 3\<close> are
  processed, that is every 3rd captured frame beginning with the first, and all other
  frames are drained without processing.
\<close>

theorem every_third_frame_processed:
  "stream_loop 0 (map Some fs) =
     (map (\<lambda>i. if i mod FRAME_SKIP = 0 then Processed else Drained) [0..<length fs], length fs) \<and>
   FRAME_SKIP = 3"
  using stream_loop_all_read[of 0 fs] by (simp add: FRAME_SKIP_def)

text \<open>
  As stated, the claim has every 4th frame processed: of eight captured frames the
  worker processes the 1st, 4th and 7th, three frames and not two.
\<close>

theorem every_fourth_frame_counterexample:
  "fst (stream_loop 0 (map Some [10, 11, 12, 13, 14, 15, 16, 17 :: nat])) =
     [Processed, Drained, Drained, Processed, Drained, Drained, Processed, Drained] \<and>
   fst (stream_loop 0 (map Some [10, 11, 12, 13, 14, 15, 16, 17 :: nat])) \<noteq>
     [Processed, Drained, Drained, Drained, Processed, Drained, Drained, Drained] \<and>
   length (filter (\<lambda>x. x = Processed)
     (fst (stream_loop 0 (map Some [10, 11, 12, 13, 14, 15, 16, 17 :: nat])))) = 3"
  by (simp add: FRAME_SKIP_def)

section \<open>Properties of the broadcast hub\<close>

lemma collect_sends_no_raise:
  "\<forall>c \<in> set cs. send c \<noteq> CallRaises \<Longrightarrow> collect_sends send cs = (cs, [])"
  by (induction cs) auto


lemma cache_frame_connections [simp]:
  "active_connections (cache_frame now mgr msg) = active_connections mgr"
  by (simp add: cache_frame_def split: option.splits)

lemma broadcast_without_call_raise:
  assumes "\<forall>c \<in> set (active_connections mgr). send_json c msg \<noteq> CallRaises"
  shows "active_connections (fst (broadcast now send_json mgr msg)) = active_connections mgr \<and>
         snd (broadcast now send_json mgr msg) =
           filter (\<lambda>c. send_json c msg = Delivered) (active_connections mgr)"
proof (cases "active_connections mgr = []")
  case True
  then show ?thesis by (simp add: broadcast_def)
next
  case False
  let ?mgr1 = "if msg ''type'' = Some ''frame'' then cache_frame now mgr msg else mgr"
  have ac: "active_connections ?mgr1 = active_connections mgr" by simp
  have "collect_sends (\<lambda>c. send_json c msg) (active_connections ?mgr1) =
          (active_connections mgr, [])"
    unfolding ac using assms by (intro collect_sends_no_raise) simp
  then show ?thesis using False by (simp add: broadcast_def Let_def)
qed

text \<open>
  Claim C10. The claim asks that a viewer whose delivery fails is removed from the
  registry while the other viewers still receive the message. With two registered
  viewers, delivery to viewer 1 failing when its send is awaited, the broadcast delivers
  the message to viewer 2 and completes, and viewer 1 is still registered afterwards:
  only a failure of the call that creates the send is caught and leads to removal.
\<close>

theorem broadcast_keeps_failed_viewer:
  "broadcast 0 (\<lambda>c m. if c = 1 then SendFails else Delivered)
     \<lparr> active_connections = [1 :: nat, 2],
       connection_users = [(1, ''u1'', ''Asha'', ''user''), (2, ''u2'', ''Ravi'', ''admin'')],
       last_frame = (\<lambda>k. None), frame_timestamps = (\<lambda>k. None) \<rparr>
     [''type'' \<mapsto> ''attendance'', ''emp_id'' \<mapsto> ''E001'']
   = (\<lparr> active_connections = [1, 2],
        connection_users = [(1, ''u1'', ''Asha'', ''user''), (2, ''u2'', ''Ravi'', ''admin'')],
        last_frame = (\<lambda>k. None), frame_timestamps = (\<lambda>k. None) \<rparr>,
      [2])"
  by (simp add: broadcast_def)

end
